theory Spec2Isabelle
  imports Main "HOL-Library.Word"
begin

unbundle bit_operations_syntax

section \<open>Bytes, files and struct packing\<close>

text \<open>
  A file is the list of its bytes.  Python integers are unbounded and are modelled as
  \<open>int\<close>; positions and lengths that the source never lets go negative are \<open>nat\<close>.
\<close>

type_synonym byte = "8 word"

text \<open>\<^verbatim>\<open>CHUNK_SIZE = 1024 * 1024\<close>\<close>

definition CHUNK_SIZE :: nat where
  "CHUNK_SIZE = 1024 * 1024"

text \<open>\<^verbatim>\<open>fin.seek(p); fin.read(n)\<close>: at most \<open>n\<close> bytes, fewer at the end of the file.\<close>

definition read_at :: "byte list \<Rightarrow> nat \<Rightarrow> nat \<Rightarrow> byte list" where
  "read_at f p n = take n (drop p f)"

text \<open>\<^verbatim>\<open>struct.unpack("<%sH" % num_words, data)\<close>: little-endian 16-bit words.\<close>

fun unpack_H_le :: "byte list \<Rightarrow> int list" where
  "unpack_H_le (lo # hi # rest) = (uint lo + 256 * uint hi) # unpack_H_le rest"
| "unpack_H_le [b] = []"
| "unpack_H_le [] = []"

section \<open>Checksum engine\<close>

text \<open>
  The \<^verbatim>\<open>for chunk in struct.unpack(...)\<close> loop of
  \<^verbatim>\<open>MemCheck_CalcCheckSum16Bit_Streaming\<close>: it threads \<open>uiSum\<close> and \<open>pos\<close>.
\<close>

fun sum_words :: "int \<Rightarrow> int list \<Rightarrow> int \<Rightarrow> int \<Rightarrow> int \<times> int" where
  "sum_words ignoreCRCoffset [] uiSum pos = (uiSum, pos)"
| "sum_words ignoreCRCoffset (chunk # rest) uiSum pos =
     (if pos * 2 \<noteq> ignoreCRCoffset
      then sum_words ignoreCRCoffset rest (uiSum + (chunk + pos)) (pos + 1)
      else sum_words ignoreCRCoffset rest (uiSum + pos) (pos + 1))"

text \<open>The size of the next read: \<^verbatim>\<open>min(CHUNK_SIZE, bytes_remaining)\<close>, made even
  unless a single byte remains.\<close>

definition next_chunk_size :: "nat \<Rightarrow> nat" where
  "next_chunk_size bytes_remaining =
     (let chunk_size = min CHUNK_SIZE bytes_remaining
      in if chunk_size mod 2 = 1 \<and> bytes_remaining > 1 then chunk_size - 1 else chunk_size)"

lemma next_chunk_size_pos: "0 < r \<Longrightarrow> 0 < next_chunk_size r"
  by (cases "r = 1") (auto simp: next_chunk_size_def CHUNK_SIZE_def Let_def min_def)

lemma next_chunk_size_le: "next_chunk_size r \<le> r"
  by (auto simp: next_chunk_size_def Let_def min_def)

text \<open>
  The \<^verbatim>\<open>while bytes_remaining > 0\<close> loop.  \<open>fpos\<close> is the position of the file
  object; a read that returns nothing ends the loop (\<^verbatim>\<open>break\<close>).
\<close>

function sum_chunks :: "byte list \<Rightarrow> nat \<Rightarrow> nat \<Rightarrow> int \<Rightarrow> int \<Rightarrow> int \<Rightarrow> int" where
  "sum_chunks f fpos bytes_remaining ignoreCRCoffset uiSum pos =
     (if bytes_remaining > 0 then
        (let chunk_size = next_chunk_size bytes_remaining;
             fread = read_at f fpos chunk_size
         in if fread = [] then uiSum
            else
              (let num_words = length fread div 2;
                   r = sum_words ignoreCRCoffset
                         (unpack_H_le (take (num_words * 2) fread)) uiSum pos
               in sum_chunks f (fpos + length fread) (bytes_remaining - chunk_size)
                    ignoreCRCoffset (fst r) (snd r)))
      else uiSum)"
  by pat_completeness auto
termination
proof (relation "measure (\<lambda>(f, fpos, r, h, s, p). r)")
  show "wf (measure (\<lambda>(f, fpos, r, h, s, p). r))" by simp
next
  fix f xa :: "byte list" and fpos bytes_remaining x xb :: nat
    and ignoreCRCoffset uiSum pos :: int and xc :: "int \<times> int"
  assume "0 < bytes_remaining" and "x = next_chunk_size bytes_remaining"
  then have "0 < x" by (simp add: next_chunk_size_pos)
  then show "((f, fpos + length xa, bytes_remaining - x, ignoreCRCoffset, fst xc, snd xc),
              (f, fpos, bytes_remaining, ignoreCRCoffset, uiSum, pos))
             \<in> measure (\<lambda>(f, fpos, r, h, s, p). r)"
    using \<open>0 < bytes_remaining\<close> by simp
qed

declare sum_chunks.simps [simp del]

text \<open>
  \<^verbatim>\<open>MemCheck_CalcCheckSum16Bit_Streaming(input_file, in_offset, uiLen, ignoreCRCoffset)\<close>:
  the loop, then \<^verbatim>\<open>uiSum = uiSum & 0xFFFF\<close> and
  \<^verbatim>\<open>uiSum = (~uiSum & 0xFFFF) + 1\<close>.
\<close>

definition MemCheck_CalcCheckSum16Bit_Streaming :: "byte list \<Rightarrow> nat \<Rightarrow> nat \<Rightarrow> int \<Rightarrow> int" where
  "MemCheck_CalcCheckSum16Bit_Streaming input_file in_offset uiLen ignoreCRCoffset =
     (let uiSum = sum_chunks input_file in_offset uiLen ignoreCRCoffset 0 0;
          uiSum = uiSum AND 0xFFFF
      in ((NOT uiSum) AND 0xFFFF) + 1)"

definition MemCheck_CalcCheckSum16Bit :: "byte list \<Rightarrow> nat \<Rightarrow> nat \<Rightarrow> int \<Rightarrow> int" where
  "MemCheck_CalcCheckSum16Bit input_file in_offset uiLen ignoreCRCoffset =
     MemCheck_CalcCheckSum16Bit_Streaming input_file in_offset uiLen ignoreCRCoffset"

subsection \<open>The checksum as the specification words it\<close>

text \<open>
  The specification's description, written independently of the streaming loop: the range
  is read as little-endian words indexed by \<open>pos = 0, 1, \<dots>\<close>; each word adds
  \<open>word + pos\<close>, the word at byte position \<open>hole_offset\<close> adds \<open>pos\<close> only; a trailing odd
  byte is ignored; the result is \<open>((~sum & 0xFFFF) + 1) & 0xFFFF\<close>.
\<close>

definition spec_word :: "byte list \<Rightarrow> nat \<Rightarrow> nat \<Rightarrow> int" where
  "spec_word f start k = uint (f ! (start + 2 * k)) + 256 * uint (f ! (start + 2 * k + 1))"

definition spec_sum :: "byte list \<Rightarrow> nat \<Rightarrow> nat \<Rightarrow> int \<Rightarrow> int" where
  "spec_sum f start len hole_offset =
     (\<Sum>k<len div 2. (if int k * 2 = hole_offset then 0 else spec_word f start k) + int k)"

definition spec_checksum :: "byte list \<Rightarrow> nat \<Rightarrow> nat \<Rightarrow> int \<Rightarrow> int" where
  "spec_checksum f start len hole_offset =
     (((NOT (spec_sum f start len hole_offset)) AND 0xFFFF) + 1) AND 0xFFFF"

subsection \<open>Facts about the checksum engine\<close>

lemma not_and_mask16: "(NOT s) AND 0xFFFF = 65535 - (s::int) mod 65536"
proof -
  have "(NOT s) AND 0xFFFF = take_bit 16 (NOT s)"
    by (simp add: take_bit_eq_mask mask_eq_exp_minus_1)
  also have "\<dots> = mask 16 - take_bit 16 s"
    by (rule take_bit_not_eq_mask_diff)
  also have "\<dots> = 65535 - s mod 65536"
    by (simp add: take_bit_eq_mod mask_eq_exp_minus_1)
  finally show ?thesis .
qed

lemma and_mask16: "(s::int) AND 0xFFFF = s mod 65536"
proof -
  have "s AND 0xFFFF = take_bit 16 s"
    by (simp add: take_bit_eq_mask mask_eq_exp_minus_1)
  then show ?thesis by (simp add: take_bit_eq_mod)
qed

lemma not_mod16: "NOT s mod 65536 = 65535 - (s::int) mod 65536"
  using not_and_mask16[of s] by (simp add: and_mask16)

lemma checksum_closed_form:
  "MemCheck_CalcCheckSum16Bit_Streaming f off len h =
     65536 - (sum_chunks f off len h 0 0) mod 65536"
  by (simp add: MemCheck_CalcCheckSum16Bit_Streaming_def Let_def and_mask16 not_mod16)

lemma unpack_H_le_even_prefix:
  "unpack_H_le (take (length xs div 2 * 2) xs) = unpack_H_le xs"
  by (induction xs rule: unpack_H_le.induct) simp_all

lemma unpack_H_le_append:
  "even (length xs) \<Longrightarrow> unpack_H_le (xs @ ys) = unpack_H_le xs @ unpack_H_le ys"
  by (induction xs rule: unpack_H_le.induct) simp_all

lemma sum_words_append:
  "sum_words h (xs @ ys) s p =
     sum_words h ys (fst (sum_words h xs s p)) (snd (sum_words h xs s p))"
  by (induction xs arbitrary: s p) simp_all

lemma next_chunk_size_odd: "odd (next_chunk_size r) \<Longrightarrow> r = 1"
  by (auto simp: next_chunk_size_def Let_def CHUNK_SIZE_def min_def split: if_splits) presburger+

lemma sum_chunks_refines:
  "sum_chunks f fpos r h s p = fst (sum_words h (unpack_H_le (read_at f fpos r)) s p)"
proof (induction f fpos r h s p rule: sum_chunks.induct)
  case (1 f fpos r h s p)
  show ?case
  proof (cases "r > 0")
    case False
    then show ?thesis by (subst sum_chunks.simps) (simp add: read_at_def)
  next
    case True
    define c where "c = next_chunk_size r"
    define D where "D = drop fpos f"
    define fread where "fread = read_at f fpos c"
    have cpos: "0 < c" and cle: "c \<le> r"
      using True by (simp_all add: c_def next_chunk_size_pos next_chunk_size_le)
    have fread: "fread = take c D" by (simp add: fread_def D_def read_at_def)
    show ?thesis
    proof (cases "fread = []")
      case True
      with cpos have "D = []" by (simp add: fread)
      then have "read_at f fpos r = []" by (simp add: read_at_def D_def)
      with True \<open>r > 0\<close> show ?thesis
        by (subst sum_chunks.simps) (simp add: c_def fread_def Let_def)
    next
      case False
      define ws where "ws = unpack_H_le (take (length fread div 2 * 2) fread)"
      define res where "res = sum_words h ws s p"
      have step: "sum_chunks f fpos r h s p =
                  sum_chunks f (fpos + length fread) (r - c) h (fst res) (snd res)"
        using False \<open>r > 0\<close>
        by (subst sum_chunks.simps) (simp add: c_def fread_def Let_def res_def ws_def)
      have IH: "sum_chunks f (fpos + length fread) (r - c) h (fst res) (snd res) =
                fst (sum_words h (unpack_H_le (read_at f (fpos + length fread) (r - c)))
                       (fst res) (snd res))"
        using "1.IH"[OF \<open>r > 0\<close> c_def fread_def[unfolded c_def, folded c_def] False refl res_def[unfolded ws_def]]
        by (simp add: c_def)
      have ws: "ws = unpack_H_le fread" by (simp add: ws_def unpack_H_le_even_prefix)
      have split: "unpack_H_le (read_at f fpos r) =
                   unpack_H_le fread @ unpack_H_le (read_at f (fpos + length fread) (r - c))"
      proof (cases "length D < c")
        case True
        then have "fread = D" by (simp add: fread)
        moreover have "read_at f fpos r = D" using True cle by (simp add: read_at_def D_def)
        moreover have "read_at f (fpos + length fread) (r - c) = []"
          using \<open>fread = D\<close> by (simp add: read_at_def D_def)
        ultimately show ?thesis by simp
      next
        case False
        then have len: "length fread = c" by (simp add: fread)
        have dec: "read_at f fpos r = fread @ read_at f (fpos + length fread) (r - c)"
        proof -
          have "take r D = take c D @ take (r - c) (drop c D)"
            using cle by (metis le_add_diff_inverse take_add)
          moreover have "drop (fpos + c) f = drop c D" by (simp add: D_def add.commute)
          ultimately show ?thesis unfolding len by (simp add: read_at_def D_def fread)
        qed
        show ?thesis
        proof (cases "even c")
          case True
          then show ?thesis using dec len by (metis unpack_H_le_append)
        next
          case False
          then have "r = 1" using next_chunk_size_odd c_def by blast
          then have "c = 1" using cpos cle by simp
          then obtain b where "fread = [b]" using len by (cases fread) auto
          then show ?thesis using dec \<open>r = 1\<close> \<open>c = 1\<close> by (simp add: read_at_def)
        qed
      qed
      have "sum_chunks f fpos r h s p =
            fst (sum_words h (unpack_H_le (read_at f (fpos + length fread) (r - c)))
                   (fst res) (snd res))"
        using step IH by simp
      also have "\<dots> = fst (sum_words h (unpack_H_le (read_at f fpos r)) s p)"
        unfolding split res_def ws by (simp add: sum_words_append)
      finally show ?thesis .
    qed
  qed
qed

lemma sum_words_closed:
  "fst (sum_words h (unpack_H_le xs) s p) =
     s + (\<Sum>k<length xs div 2.
            (if (p + int k) * 2 = h then 0 else uint (xs ! (2 * k)) + 256 * uint (xs ! (2 * k + 1)))
            + (p + int k))"
proof (induction xs arbitrary: s p rule: unpack_H_le.induct)
  case (1 lo hi rest)
  define g where "g k = (if (p + int k) * 2 = h then 0
             else uint ((lo # hi # rest) ! (2 * k)) + 256 * uint ((lo # hi # rest) ! (2 * k + 1)))
            + (p + int k)" for k
  define g' where "g' k = (if (p + 1 + int k) * 2 = h then 0
             else uint (rest ! (2 * k)) + 256 * uint (rest ! (2 * k + 1)))
            + (p + 1 + int k)" for k
  have g0: "g 0 = (if p * 2 = h then 0 else uint lo + 256 * uint hi) + p"
    by (simp add: g_def)
  have gS: "g (Suc k) = g' k" for k
    by (simp add: g_def g'_def algebra_simps)
  have "fst (sum_words h (unpack_H_le (lo # hi # rest)) s p) =
        fst (sum_words h (unpack_H_le rest) (s + g 0) (p + 1))"
    by (simp add: g0)
  also have "\<dots> = s + g 0 + (\<Sum>k<length rest div 2. g' k)"
    unfolding g'_def by (rule "1.IH")
  also have "\<dots> = s + (\<Sum>k<Suc (length rest div 2). g k)"
    by (simp only: sum.lessThan_Suc_shift gS add.assoc)
  also have "Suc (length rest div 2) = length (lo # hi # rest) div 2"
    by simp
  finally show ?case unfolding g_def .
qed simp_all

lemma sum_chunks_spec_sum:
  assumes "start + len \<le> length f"
  shows "sum_chunks f start len h 0 0 = spec_sum f start len h"
proof -
  let ?xs = "read_at f start len"
  have len: "length ?xs = len" using assms by (simp add: read_at_def)
  have nth: "?xs ! i = f ! (start + i)" if "i < len" for i
    using that assms by (simp add: read_at_def)
  have "sum_chunks f start len h 0 0 =
        (\<Sum>k<len div 2.
            (if int k * 2 = h then 0 else uint (?xs ! (2 * k)) + 256 * uint (?xs ! (2 * k + 1)))
            + int k)"
    by (simp add: sum_chunks_refines sum_words_closed len)
  also have "\<dots> = spec_sum f start len h"
    unfolding spec_sum_def spec_word_def
  proof (rule sum.cong[OF refl])
    fix k assume "k \<in> {..<len div 2}"
    then have "2 * k < len" "2 * k + 1 < len" by auto
    then show "(if int k * 2 = h then 0 else uint (?xs ! (2 * k)) + 256 * uint (?xs ! (2 * k + 1))) + int k
             = (if int k * 2 = h then 0 else uint (f ! (start + 2 * k)) + 256 * uint (f ! (start + 2 * k + 1))) + int k"
      by (simp add: nth add.assoc)
  qed
  finally show ?thesis .
qed

lemma checksum_matches_spec:
  assumes "start + len \<le> length f" "spec_sum f start len h mod 65536 \<noteq> 0"
  shows "MemCheck_CalcCheckSum16Bit_Streaming f start len h = spec_checksum f start len h"
proof -
  let ?m = "spec_sum f start len h mod 65536"
  have "0 \<le> ?m" "?m < 65536" by simp_all
  with assms(2) have "(- ?m) mod 65536 = 65536 - ?m"
    by (simp add: zmod_zminus1_eq_if)
  then show ?thesis
    using assms(1)
    by (simp add: checksum_closed_form sum_chunks_spec_sum spec_checksum_def and_mask16 not_mod16)
qed

lemma spec_sum_list:
  "spec_sum f start len h =
     sum_list (map (\<lambda>k. (if int k * 2 = h then 0 else spec_word f start k) + int k)
                [0..<len div 2])"
  by (simp add: spec_sum_def interv_sum_list_conv_sum_set_nat lessThan_atLeast0)

section \<open>Python values the codec relies on\<close>

text \<open>Ways a run can end other than by returning: \<^verbatim>\<open>exit(n)\<close>/\<^verbatim>\<open>sys.exit(n)\<close> or an
  uncaught exception.\<close>

datatype abort = Exit int | StructError | IndexError | OverflowError | CodecError

text \<open>\<^verbatim>\<open>xs[i]\<close>: a negative index counts from the end; out of range raises
  \<^verbatim>\<open>IndexError\<close> (\<open>None\<close>).\<close>

definition py_index :: "'a list \<Rightarrow> int \<Rightarrow> 'a option" where
  "py_index xs i =
     (let n = int (length xs); k = (if i < 0 then n + i else i)
      in if 0 \<le> k \<and> k < n then Some (xs ! nat k) else None)"

text \<open>\<^verbatim>\<open>struct.pack\<close> of an unsigned field raises \<^verbatim>\<open>struct.error\<close> when the value does
  not fit; \<^verbatim>\<open>struct.unpack\<close> raises it when the buffer has the wrong length.\<close>

definition pack_I_be :: "int \<Rightarrow> abort + byte list" where
  "pack_I_be v =
     (if 0 \<le> v \<and> v < 2 ^ 32
      then Inr [of_int (v div 2 ^ 24), of_int (v div 2 ^ 16), of_int (v div 2 ^ 8), of_int v]
      else Inl StructError)"

definition pack_I_le :: "int \<Rightarrow> abort + byte list" where
  "pack_I_le v =
     (if 0 \<le> v \<and> v < 2 ^ 32
      then Inr [of_int v, of_int (v div 2 ^ 8), of_int (v div 2 ^ 16), of_int (v div 2 ^ 24)]
      else Inl StructError)"

definition pack_H_be :: "int \<Rightarrow> abort + byte list" where
  "pack_H_be v =
     (if 0 \<le> v \<and> v < 2 ^ 16 then Inr [of_int (v div 2 ^ 8), of_int v] else Inl StructError)"

definition pack_H_le :: "int \<Rightarrow> abort + byte list" where
  "pack_H_le v =
     (if 0 \<le> v \<and> v < 2 ^ 16 then Inr [of_int v, of_int (v div 2 ^ 8)] else Inl StructError)"

fun unpack_I_be :: "byte list \<Rightarrow> abort + int" where
  "unpack_I_be [a, b, c, d] = Inr (uint a * 2 ^ 24 + uint b * 2 ^ 16 + uint c * 2 ^ 8 + uint d)"
| "unpack_I_be _ = Inl StructError"

fun unpack_I_le :: "byte list \<Rightarrow> abort + int" where
  "unpack_I_le [a, b, c, d] = Inr (uint a + uint b * 2 ^ 8 + uint c * 2 ^ 16 + uint d * 2 ^ 24)"
| "unpack_I_le _ = Inl StructError"

fun unpack_H_be :: "byte list \<Rightarrow> abort + int" where
  "unpack_H_be [a, b] = Inr (uint a * 2 ^ 8 + uint b)"
| "unpack_H_be _ = Inl StructError"

fun unpack_H_le1 :: "byte list \<Rightarrow> abort + int" where
  "unpack_H_le1 [a, b] = Inr (uint a + uint b * 2 ^ 8)"
| "unpack_H_le1 _ = Inl StructError"

fun unpack_B :: "byte list \<Rightarrow> abort + int" where
  "unpack_B [a] = Inr (uint a)"
| "unpack_B _ = Inl StructError"

text \<open>\<^verbatim>\<open>f.seek(p); f.write(bs)\<close> on a file opened \<^verbatim>\<open>r+b\<close>: bytes are overwritten in place,
  a write past the end extends the file (a gap is filled with zero bytes).\<close>

definition write_at :: "byte list \<Rightarrow> nat \<Rightarrow> byte list \<Rightarrow> byte list" where
  "write_at f p bs = take p f @ replicate (p - length f) 0 @ bs @ drop (p + length bs) f"

text \<open>The four bytes \<^verbatim>\<open>b'BCL1'\<close>.\<close>

definition BCL1_magic :: "byte list" where
  "BCL1_magic = [0x42, 0x43, 0x4C, 0x31]"

section \<open>The LZ77 encoder of \<^verbatim>\<open>BCL1_compress\<close>\<close>

text \<open>\<^verbatim>\<open>symbols = (dataread[i] << 8) | dataread[i+1]\<close>\<close>

definition symbols_at :: "byte list \<Rightarrow> nat \<Rightarrow> int" where
  "symbols_at dataread i = push_bit 8 (uint (dataread ! i)) OR uint (dataread ! (i + 1))"

text \<open>
  The jump table: \<open>work_dict\<close> maps a two-byte symbol to the last position seen,
  \<open>work_chain\<close> a position to the previous position with the same symbol (or \<open>-1\<close>).
  \<^verbatim>\<open>for i in range(insize-1): ...\<close>, then \<^verbatim>\<open>work_chain[insize-1] = -1\<close>.
\<close>

fun build_tables ::
  "byte list \<Rightarrow> nat list \<Rightarrow> (int \<rightharpoonup> int) \<Rightarrow> (int \<rightharpoonup> int) \<Rightarrow> (int \<rightharpoonup> int) \<times> (int \<rightharpoonup> int)" where
  "build_tables dataread [] work_dict work_chain = (work_dict, work_chain)"
| "build_tables dataread (i # rest) work_dict work_chain =
     (let symbols = symbols_at dataread i;
          work_chain = (case work_dict symbols of
                          Some p \<Rightarrow> work_chain(int i \<mapsto> p)
                        | None \<Rightarrow> work_chain(int i \<mapsto> - 1))
      in build_tables dataread rest (work_dict(symbols \<mapsto> int i)) work_chain)"

definition jump_tables :: "byte list \<Rightarrow> (int \<rightharpoonup> int) \<times> (int \<rightharpoonup> int)" where
  "jump_tables dataread =
     (let insize = int (length dataread);
          t = build_tables dataread [0..<length dataread - 1] Map.empty Map.empty
      in (fst t, (snd t)(insize - 1 \<mapsto> - 1)))"

text \<open>\<^verbatim>\<open>work_dict.get(symbols, -1)\<close> and \<^verbatim>\<open>work_chain.get(j, -1)\<close>\<close>

definition work_dict_get :: "byte list \<Rightarrow> int \<Rightarrow> int" where
  "work_dict_get dataread symbols =
     (case fst (jump_tables dataread) symbols of Some p \<Rightarrow> p | None \<Rightarrow> - 1)"

definition work_chain_get :: "byte list \<Rightarrow> int \<Rightarrow> int" where
  "work_chain_get dataread j =
     (case snd (jump_tables dataread) j of Some p \<Rightarrow> p | None \<Rightarrow> - 1)"

text \<open>\<^verbatim>\<open>histogram = [0] * 256; for b in dataread: histogram[b] += 1\<close> and
  \<^verbatim>\<open>marker = histogram.index(min(histogram))\<close>: the first position of the least count.\<close>

definition histogram :: "byte list \<Rightarrow> nat list" where
  "histogram dataread = fold (\<lambda>b h. h[unat b := h ! unat b + 1]) dataread (replicate 256 0)"

fun index_of :: "nat list \<Rightarrow> nat \<Rightarrow> nat" where
  "index_of [] v = 0"
| "index_of (x # xs) v = (if x = v then 0 else Suc (index_of xs v))"

definition choose_marker :: "byte list \<Rightarrow> byte" where
  "choose_marker dataread =
     (let h = histogram dataread in of_nat (index_of h (Min (set h))))"

definition LZ_MAX_OFFSET :: int where
  "LZ_MAX_OFFSET = 100000"

text \<open>\<^verbatim>\<open>while (length < maxlength) and (dataread[inpos + length] == dataread[j + length])\<close>\<close>

function match_length :: "byte list \<Rightarrow> int \<Rightarrow> int \<Rightarrow> int \<Rightarrow> int \<Rightarrow> int option" where
  "match_length dataread inpos j maxlength len =
     (if len < maxlength then
        (case py_index dataread (inpos + len) of
           None \<Rightarrow> None
         | Some a \<Rightarrow>
            (case py_index dataread (j + len) of
               None \<Rightarrow> None
             | Some b \<Rightarrow>
                 if a = b then match_length dataread inpos j maxlength (len + 1) else Some len))
      else Some len)"
  by pat_completeness auto
termination
  by (relation "measure (\<lambda>(d, inpos, j, maxlength, len). nat (maxlength - len))") auto

declare match_length.simps [simp del]

subsection \<open>Facts about the jump table\<close>

lemma byte_bounds: "0 \<le> uint (x::byte)" "uint (x::byte) < 256"
  using uint_lt2p[of x] by simp_all

lemma take_bit8_byte: "take_bit 8 (uint (x::byte)) = uint x"
  by (rule take_bit_int_eq_self) (simp_all add: byte_bounds)

lemma symbols_at_eq: "symbols_at d i = 256 * uint (d ! i) + uint (d ! (i + 1))"
proof -
  have "symbols_at d i = concat_bit 8 (uint (d ! (i + 1))) (uint (d ! i))"
    by (simp add: symbols_at_def concat_bit_def or.commute take_bit8_byte)
  also have "\<dots> = uint (d ! (i + 1)) + 256 * uint (d ! i)"
    by (simp only: concat_bit_eq take_bit8_byte push_bit_eq_mult) simp
  finally show ?thesis by simp
qed

lemma symbols_at_inj:
  assumes "symbols_at d i = symbols_at d k"
  shows "d ! i = d ! k \<and> d ! (i + 1) = d ! (k + 1)"
proof -
  note b = byte_bounds
  have e: "256 * uint (d ! i) + uint (d ! (i + 1)) = 256 * uint (d ! k) + uint (d ! (k + 1))"
    using assms by (simp add: symbols_at_eq)
  have "(256 * uint (d ! i) + uint (d ! (i + 1))) div 256 = uint (d ! i)"
    using b[of "d ! (i + 1)"] by simp
  moreover have "(256 * uint (d ! k) + uint (d ! (k + 1))) div 256 = uint (d ! k)"
    using b[of "d ! (k + 1)"] by simp
  ultimately have 1: "uint (d ! i) = uint (d ! k)" using e by simp
  with e have 2: "uint (d ! (i + 1)) = uint (d ! (k + 1))" by simp
  from 1 2 show ?thesis by (simp add: word_uint_eq_iff)
qed

text \<open>The invariant of the table-building loop after positions \<open>0..<n\<close>.\<close>

definition tables_inv :: "byte list \<Rightarrow> nat \<Rightarrow> (int \<rightharpoonup> int) \<Rightarrow> (int \<rightharpoonup> int) \<Rightarrow> bool" where
  "tables_inv d n wd wc \<longleftrightarrow>
     (\<forall>s p. wd s = Some p \<longrightarrow> 0 \<le> p \<and> p < int n \<and> symbols_at d (nat p) = s) \<and>
     (\<forall>k j. wc k = Some j \<longrightarrow> 0 \<le> k \<and> k < int n \<and>
         (j = - 1 \<or> (0 \<le> j \<and> j < k \<and> symbols_at d (nat j) = symbols_at d (nat k))))"

lemma build_tables_inv:
  "tables_inv d n wd wc \<Longrightarrow> n \<le> m \<Longrightarrow>
   tables_inv d m (fst (build_tables d [n..<m] wd wc)) (snd (build_tables d [n..<m] wd wc))"
proof (induction "m - n" arbitrary: n wd wc)
  case 0
  then show ?case by simp
next
  case (Suc x)
  then have lt: "n < m" by simp
  let ?s = "symbols_at d n"
  let ?wc = "(case wd ?s of Some p \<Rightarrow> wc(int n \<mapsto> p) | None \<Rightarrow> wc(int n \<mapsto> - 1))"
  have inv': "tables_inv d (Suc n) (wd(?s \<mapsto> int n)) ?wc"
    unfolding tables_inv_def
  proof (intro conjI allI impI)
    fix s p assume h: "(wd(?s \<mapsto> int n)) s = Some p"
    show "0 \<le> p" "p < int (Suc n)" "symbols_at d (nat p) = s"
      using h Suc.prems(1) unfolding tables_inv_def
      by (cases "s = ?s"; fastforce)+
  next
    fix k j assume h: "?wc k = Some j"
    have old: "wc k = Some j \<Longrightarrow> 0 \<le> k \<and> k < int n \<and>
         (j = - 1 \<or> (0 \<le> j \<and> j < k \<and> symbols_at d (nat j) = symbols_at d (nat k)))"
      using Suc.prems(1) unfolding tables_inv_def by blast
    have new: "wd ?s = Some j \<Longrightarrow> 0 \<le> j \<and> j < int n \<and> symbols_at d (nat j) = ?s"
      using Suc.prems(1) unfolding tables_inv_def by blast
    have c: "(k = int n \<and> (wd ?s = Some j \<or> j = - 1)) \<or> (k \<noteq> int n \<and> wc k = Some j)"
      using h by (cases "wd ?s"; cases "k = int n"; simp)
    show "0 \<le> k" "k < int (Suc n)"
      "j = - 1 \<or> (0 \<le> j \<and> j < k \<and> symbols_at d (nat j) = symbols_at d (nat k))"
      using c old new by auto
  qed
  have "tables_inv d m (fst (build_tables d [Suc n..<m] (wd(?s \<mapsto> int n)) ?wc))
          (snd (build_tables d [Suc n..<m] (wd(?s \<mapsto> int n)) ?wc))"
    using Suc.hyps(1)[of "Suc n", OF _ inv'] Suc.hyps(2) lt by simp
  then show ?case using lt by (simp add: upt_conv_Cons Let_def)
qed

lemma work_chain_get_props:
  "work_chain_get d j = - 1 \<or>
   (0 \<le> work_chain_get d j \<and> work_chain_get d j < j \<and> j < int (length d) - 1 \<and>
    symbols_at d (nat (work_chain_get d j)) = symbols_at d (nat j))"
proof -
  let ?t = "build_tables d [0..<length d - 1] Map.empty Map.empty"
  have "tables_inv d 0 Map.empty Map.empty" by (simp add: tables_inv_def)
  then have inv: "tables_inv d (length d - 1) (fst ?t) (snd ?t)"
    using build_tables_inv[of d 0 Map.empty Map.empty "length d - 1"] by simp
  show ?thesis
  proof (cases "snd (jump_tables d) j")
    case None
    then show ?thesis by (simp add: work_chain_get_def)
  next
    case (Some p)
    show ?thesis
    proof (cases "j = int (length d) - 1")
      case True
      then show ?thesis by (simp add: work_chain_get_def jump_tables_def Let_def)
    next
      case False
      with Some have "snd ?t j = Some p" by (simp add: jump_tables_def Let_def)
      with inv have "0 \<le> j \<and> j < int (length d - 1) \<and>
         (p = - 1 \<or> (0 \<le> p \<and> p < j \<and> symbols_at d (nat p) = symbols_at d (nat j)))"
        unfolding tables_inv_def by blast
      then show ?thesis using Some by (auto simp: work_chain_get_def)
    qed
  qed
qed

lemma work_chain_get_bounds: "- 1 \<le> work_chain_get d j" "0 \<le> j \<Longrightarrow> work_chain_get d j < j"
  using work_chain_get_props[of d j] by auto

lemma chain_measure:
  "j \<noteq> - 1 \<Longrightarrow>
   nat (if work_chain_get d j < - 1 then 2 else work_chain_get d j + 2)
     < nat (if j < - 1 then 2 else j + 2)"
  using work_chain_get_props[of d j] by auto

text \<open>
  The search along the chain:
  \<^verbatim>\<open>while (j != -1) and ((inpos - j) < LZ_MAX_OFFSET): ...; j = work_chain.get(j, -1)\<close>.
  It returns \<open>(bestlength, bestoffset)\<close>.
\<close>

function find_match ::
  "byte list \<Rightarrow> int \<Rightarrow> int \<Rightarrow> int \<Rightarrow> int \<Rightarrow> int \<Rightarrow> (int \<times> int) option" where
  "find_match dataread inpos bytesleft j bestlength bestoffset =
     (if j \<noteq> - 1 \<and> inpos - j < LZ_MAX_OFFSET then
        (if j + bestlength \<ge> int (length dataread) \<or> inpos + bestlength \<ge> int (length dataread)
         then Some (bestlength, bestoffset)
         else
           (case py_index dataread (j + bestlength) of
              None \<Rightarrow> None
            | Some a \<Rightarrow>
               (case py_index dataread (inpos + bestlength) of
                  None \<Rightarrow> None
                | Some b \<Rightarrow>
                    if a = b then
                      (case match_length dataread inpos j
                              (if bytesleft < inpos - j then bytesleft else inpos - j) 2 of
                         None \<Rightarrow> None
                       | Some len \<Rightarrow>
                           if len > bestlength
                           then find_match dataread inpos bytesleft
                                  (work_chain_get dataread j) len (inpos - j)
                           else find_match dataread inpos bytesleft
                                  (work_chain_get dataread j) bestlength bestoffset)
                    else find_match dataread inpos bytesleft
                           (work_chain_get dataread j) bestlength bestoffset)))
      else Some (bestlength, bestoffset))"
  by pat_completeness auto
termination
  apply (relation "measure (\<lambda>(d, inpos, bytesleft, j, bl, bo). nat (if j < - 1 then 2 else j + 2))")
     apply simp
    apply (simp_all only: in_measure split_conv)
    apply (rule chain_measure, simp)+
  done

declare find_match.simps [simp del]

text \<open>The test that decides whether the best match is written as a back-reference.\<close>

definition worth_emitting :: "int \<Rightarrow> int \<Rightarrow> bool" where
  "worth_emitting bestlength bestoffset \<longleftrightarrow>
     bestlength > 7 \<or>
     (bestlength = 4 \<and> bestoffset \<le> 0x0000007f) \<or>
     (bestlength = 5 \<and> bestoffset \<le> 0x00003fff) \<or>
     (bestlength = 6 \<and> bestoffset \<le> 0x001fffff) \<or>
     (bestlength = 7 \<and> bestoffset \<le> 0x0fffffff)"

text \<open>
  What one iteration of the encoder writes: a back-reference (marker, length, offset) or a
  literal byte.  \<open>Ref len off\<close> is written when the source takes the first branch,
  \<open>Lit symbol\<close> when it takes the second; the trailing loop writes literals only.
\<close>

datatype token = Lit byte | Ref int int

text \<open>\<^verbatim>\<open>symbols = (dataread[inpos] << 8) | dataread[inpos+1] if inpos + 1 < insize else 0\<close>\<close>

definition symbols_here :: "byte list \<Rightarrow> int \<Rightarrow> int option" where
  "symbols_here dataread inpos =
     (if inpos + 1 < int (length dataread) then
        (case py_index dataread inpos of
           None \<Rightarrow> None
         | Some a \<Rightarrow>
            (case py_index dataread (inpos + 1) of
               None \<Rightarrow> None
             | Some b \<Rightarrow> Some (push_bit 8 (uint a) OR uint b)))
      else Some 0)"

text \<open>\<^verbatim>\<open>while inpos < insize\<close>: the remaining bytes are written as literals.\<close>

function dump_remaining :: "byte list \<Rightarrow> int \<Rightarrow> token list option" where
  "dump_remaining dataread inpos =
     (if inpos < int (length dataread) then
        (case py_index dataread inpos of
           None \<Rightarrow> None
         | Some symbol \<Rightarrow>
            (case dump_remaining dataread (inpos + 1) of
               None \<Rightarrow> None
             | Some rest \<Rightarrow> Some (Lit symbol # rest)))
      else Some [])"
  by pat_completeness auto
termination
  by (relation "measure (\<lambda>(d, inpos). nat (int (length d) - inpos))") auto

declare dump_remaining.simps [simp del]

text \<open>\<^verbatim>\<open>while bytesleft > 3\<close>, followed by the trailing loop.\<close>

function lz77_loop :: "byte list \<Rightarrow> int \<Rightarrow> int \<Rightarrow> token list option" where
  "lz77_loop dataread inpos bytesleft =
     (if bytesleft > 3 then
        (case symbols_here dataread inpos of
           None \<Rightarrow> None
         | Some symbols \<Rightarrow>
            (case find_match dataread inpos bytesleft
                    (if work_dict_get dataread symbols \<noteq> - 1
                     then work_chain_get dataread inpos
                     else work_dict_get dataread symbols) 3 0 of
               None \<Rightarrow> None
             | Some best \<Rightarrow>
                 if worth_emitting (fst best) (snd best) then
                   (case lz77_loop dataread (inpos + fst best) (bytesleft - fst best) of
                      None \<Rightarrow> None
                    | Some rest \<Rightarrow> Some (Ref (fst best) (snd best) # rest))
                 else
                   (case py_index dataread inpos of
                      None \<Rightarrow> None
                    | Some symbol \<Rightarrow>
                       (case lz77_loop dataread (inpos + 1) (bytesleft - 1) of
                          None \<Rightarrow> None
                        | Some rest \<Rightarrow> Some (Lit symbol # rest)))))
      else dump_remaining dataread inpos)"
  by pat_completeness auto
termination
  by (relation "measure (\<lambda>(d, inpos, bytesleft). nat bytesleft)")
     (auto simp: worth_emitting_def)

declare lz77_loop.simps [simp del]

text \<open>
  The variable-length writer used for the length and the offset.  First the number of
  bytes: \<^verbatim>\<open>y = x >> 3; num_bytes = 5; while num_bytes >= 2: if y & 0xfe000000 != 0: break;
  y <<= 7; num_bytes -= 1\<close>.
\<close>

function count_bytes :: "int \<Rightarrow> int \<Rightarrow> int" where
  "count_bytes y num_bytes =
     (if num_bytes \<ge> 2 then
        (if y AND 0xfe000000 \<noteq> 0 then num_bytes
         else count_bytes (push_bit 7 y) (num_bytes - 1))
      else num_bytes)"
  by pat_completeness auto
termination
  by (relation "measure (\<lambda>(y, n). nat n)") auto

declare count_bytes.simps [simp del]

text \<open>\<^verbatim>\<open>while i >= 0: b = (x >> (i*7)) & 0x7f; if i > 0: b |= 0x80; buf = (buf<<8) | b; i -= 1\<close>\<close>

function pack_groups :: "int \<Rightarrow> int \<Rightarrow> int \<Rightarrow> int" where
  "pack_groups x i buf =
     (if i \<ge> 0 then
        (let b = drop_bit (nat (i * 7)) x AND 0x0000007f;
             b = (if i > 0 then b OR 0x00000080 else b)
         in pack_groups x (i - 1) (push_bit 8 buf OR b))
      else buf)"
  by pat_completeness auto
termination
  by (relation "measure (\<lambda>(x, i, buf). nat (i + 1))") auto

declare pack_groups.simps [simp del]

text \<open>\<^verbatim>\<open>while num_bytes > 0: write((buf >> (8*(num_bytes - 1))) & 0xFF); num_bytes -= 1\<close>\<close>

function write_bytes :: "int \<Rightarrow> int \<Rightarrow> byte list" where
  "write_bytes buf num_bytes =
     (if num_bytes > 0
      then of_int (drop_bit (nat (8 * (num_bytes - 1))) buf AND 0xFF) # write_bytes buf (num_bytes - 1)
      else [])"
  by pat_completeness auto
termination
  by (relation "measure (\<lambda>(buf, n). nat n)") auto

declare write_bytes.simps [simp del]

definition varint_num_bytes :: "int \<Rightarrow> int" where
  "varint_num_bytes x = count_bytes (drop_bit 3 x) 5"

definition write_varint :: "int \<Rightarrow> byte list" where
  "write_varint x =
     (let num_bytes = varint_num_bytes x;
          buf = pack_groups x (num_bytes - 1) 0
      in write_bytes buf num_bytes)"

text \<open>The bytes one token puts into the file, and what it adds to \<open>outpos\<close>.\<close>

fun token_bytes :: "byte \<Rightarrow> token \<Rightarrow> byte list" where
  "token_bytes marker (Ref len off) = marker # write_varint len @ write_varint off"
| "token_bytes marker (Lit symbol) = (if symbol = marker then [symbol, 0] else [symbol])"

fun token_outpos :: "byte \<Rightarrow> token \<Rightarrow> int" where
  "token_outpos marker (Ref len off) = 1 + varint_num_bytes len + varint_num_bytes off"
| "token_outpos marker (Lit symbol) = (if symbol = marker then 2 else 1)"

text \<open>
  The LZ77 branch up to the padding: the marker byte and the tokens' bytes (everything
  written after the 16 header bytes), with the final value of \<open>outpos\<close>.
\<close>

definition lz77_encode :: "byte list \<Rightarrow> (byte list \<times> int) option" where
  "lz77_encode dataread =
     (let marker = choose_marker dataread in
      case lz77_loop dataread 0 (int (length dataread)) of
        None \<Rightarrow> None
      | Some toks \<Rightarrow>
          Some (marker # concat (map (token_bytes marker) toks),
                1 + sum_list (map (token_outpos marker) toks)))"

section \<open>\<^verbatim>\<open>BCL1_compress\<close>\<close>

text \<open>
  The process-wide variables of the script.  The arrays are \<^verbatim>\<open>array.array('I')\<close>; the
  entries of \<open>part_type\<close> are the leading tag of the type string, which is all the script
  ever tests.
\<close>

datatype ptype =
  T_dtb | T_atf | T_uboot | T_uImage | T_sparse | T_BCL1 | T_UBI | T_CKSM | T_MODELEXT | T_unknown

record globals =
  in_file :: "byte list"
  FW_HDR :: int
  FW_HDR2 :: int
  FW_BOOTLOADER :: int
  partitions_count :: nat
  part_startoffset :: "nat list"
  part_size :: "nat list"
  part_id :: "nat list"
  part_type :: "ptype list"
  part_crc :: "int list"
  part_crcCalc :: "int list"
  NVTPACK_FW_HDR2_size :: nat
  NVTPACK_FW_HDR_AND_PARTITIONS_size :: nat
  total_file_size :: nat
  orig_file_size :: nat
  checksum_value :: int

text \<open>
  The library compressors (\<^verbatim>\<open>lzma.compress\<close> with the filter chain built from
  \<open>dict_size\<close>, \<open>lc\<close>, \<open>lp\<close>, \<open>pb\<close>, and \<^verbatim>\<open>zlib.compress\<close>) and decompressors are
  not part of the script; they are parameters of the model.
\<close>

record codecs =
  lzma_compress :: "int \<Rightarrow> int \<Rightarrow> int \<Rightarrow> int \<Rightarrow> byte list \<Rightarrow> abort + byte list"
  zlib_compress :: "byte list \<Rightarrow> byte list"
  lzma_decompress :: "byte list \<Rightarrow> abort + byte list"
  zlib_decompress :: "byte list \<Rightarrow> abort + byte list"

text \<open>The search for an embedded checksum in the first \<open>0x500\<close> bytes of the raw file.\<close>

definition embedded_crc_offset :: "byte list \<Rightarrow> nat option" where
  "embedded_crc_offset dataread =
     (if length dataread > 0x46D then
        (if dataread ! 0x6C = 0xFF \<and> dataread ! 0x6D = 0xFF \<and>
            dataread ! 0x46C = 0x55 \<and> dataread ! 0x46D = 0xAA then Some 0x46E
         else if dataread ! 0x6C = 0x55 \<and> dataread ! 0x6D = 0xAA then Some 0x6E
         else if length dataread > 0x16D \<and> dataread ! 0x16C = 0x55 \<and> dataread ! 0x16D = 0xAA
           then Some 0x16E
         else None)
      else None)"

text \<open>The raw data handed to the compressor: the file, with the embedded checksum (when
  one is found) recomputed and stored.\<close>

definition prepare_dataread :: "byte list \<Rightarrow> abort + byte list" where
  "prepare_dataread in2_file =
     (case embedded_crc_offset (take (min 0x500 (length in2_file)) in2_file) of
        None \<Rightarrow> Inr in2_file
      | Some crc_offset \<Rightarrow>
          (let newCRC = MemCheck_CalcCheckSum16Bit in2_file 0 (length in2_file) (int crc_offset)
           in if crc_offset + 1 < length in2_file
              then Inr (in2_file[crc_offset := of_int (newCRC AND 0xFF),
                                 crc_offset + 1 := of_int (drop_bit 8 newCRC AND 0xFF)])
              else Inl IndexError))"

text \<open>\<^verbatim>\<open>(FW_HDR2 == 1) | ((FW_HDR == 1) & (part_id[part_nr] == 0)) |
  (FW_HDR == 0 and FW_BOOTLOADER == 0)\<close>\<close>

definition pad_condition :: "globals \<Rightarrow> nat \<Rightarrow> bool" where
  "pad_condition g part_nr \<longleftrightarrow>
     FW_HDR2 g = 1 \<or> (FW_HDR g = 1 \<and> part_id g ! part_nr = 0) \<or>
     (FW_HDR g = 0 \<and> FW_BOOTLOADER g = 0)"

text \<open>\<^verbatim>\<open>addsize = 0; if <condition>: addsize = n % 4; if addsize != 0: addsize = 4 - addsize\<close>\<close>

definition padding_for :: "bool \<Rightarrow> int \<Rightarrow> int" where
  "padding_for cond n = (if cond then (if n mod 4 \<noteq> 0 then 4 - n mod 4 else 0) else 0)"

text \<open>The payload each algorithm produces; for LZ77 also the final \<open>outpos\<close>, for the
  library compressors the length of \<open>compressed_data\<close>.\<close>

definition payload_of ::
  "codecs \<Rightarrow> int \<Rightarrow> int \<Rightarrow> int \<Rightarrow> byte list \<Rightarrow> abort + (byte list \<times> int)" where
  "payload_of cz Algorithm LZMA_Properties LZMA_DictionarySize dataread =
     (if Algorithm = 0x09 then
        (case lz77_encode dataread of None \<Rightarrow> Inl IndexError | Some r \<Rightarrow> Inr r)
      else if Algorithm = 0x0B then
        (let lc = LZMA_Properties mod 9;
             LZMA_Properties = LZMA_Properties div 9;
             pb = LZMA_Properties div 5;
             lp = LZMA_Properties mod 5;
             LZMA_DictionarySize =
               (if LZMA_DictionarySize < 2 ^ 12 then 2 ^ 12 else LZMA_DictionarySize)
         in case lzma_compress cz LZMA_DictionarySize lc lp pb dataread of
              Inl e \<Rightarrow> Inl e
            | Inr compressed_data \<Rightarrow> Inr (compressed_data, int (length compressed_data)))
      else
        (let compressed_data = zlib_compress cz dataread
         in Inr (compressed_data, int (length compressed_data))))"

text \<open>
  The file \<open>out\<close> before its checksum is stored: magic, a zero checksum, the algorithm,
  the uncompressed size (the larger of the old field and the new length), the packed size,
  the payload and the padding.  The LZ77 branch writes a zero packed size first and
  overwrites it at offset 12 once \<open>outpos\<close> is known.
\<close>

definition write_block ::
  "codecs \<Rightarrow> globals \<Rightarrow> nat \<Rightarrow> int \<Rightarrow> int \<Rightarrow> int \<Rightarrow> int \<Rightarrow> byte list \<Rightarrow> abort + byte list" where
  "write_block cz g part_nr Algorithm unpacked_part_size LZMA_Properties LZMA_DictionarySize dataread =
     (if \<not> part_nr < length (part_id g) then Inl IndexError else
      case payload_of cz Algorithm LZMA_Properties LZMA_DictionarySize dataread of
        Inl e \<Rightarrow> Inl e
      | Inr (payload, outpos) \<Rightarrow>
      case pack_H_be Algorithm of
        Inl e \<Rightarrow> Inl e
      | Inr algo \<Rightarrow>
      case pack_I_be (if unpacked_part_size > int (length dataread)
                      then unpacked_part_size else int (length dataread)) of
        Inl e \<Rightarrow> Inl e
      | Inr usize \<Rightarrow>
          (let addsize = padding_for (pad_condition g part_nr) outpos
           in case pack_I_be (outpos + addsize) of
                Inl e \<Rightarrow> Inl e
              | Inr psize \<Rightarrow>
                  Inr (write_at
                         (BCL1_magic @ [0, 0] @ algo @ usize @ [0, 0, 0, 0] @ payload @
                            replicate (nat addsize) 0)
                         12 psize)))"

text \<open>\<^verbatim>\<open>BCL1_compress(part_nr, in_offset, in2_file)\<close>; the result is the content of the file
  \<open>out\<close>.\<close>

definition read_lzma_header :: "byte list \<Rightarrow> nat \<Rightarrow> int \<Rightarrow> abort + (int \<times> int)" where
  "read_lzma_header f base Algorithm =
     (if Algorithm = 0x0B then
        (case unpack_B (read_at f (base + 0x10) 1) of
           Inl e \<Rightarrow> Inl e
         | Inr LZMA_Properties \<Rightarrow>
        case unpack_I_le (read_at f (base + 0x11) 4) of
           Inl e \<Rightarrow> Inl e
         | Inr LZMA_DictionarySize \<Rightarrow>
        case unpack_I_le (read_at f (base + 0x15) 4) of
           Inl e \<Rightarrow> Inl e
         | Inr LZMA_UncompressedSize64_Low \<Rightarrow>
        case unpack_I_le (read_at f (base + 0x19) 4) of
           Inl e \<Rightarrow> Inl e
         | Inr LZMA_UncompressedSize64_High \<Rightarrow> Inr (LZMA_Properties, LZMA_DictionarySize))
      else Inr (0, 0))"

definition BCL1_compress ::
  "codecs \<Rightarrow> globals \<Rightarrow> nat \<Rightarrow> nat \<Rightarrow> byte list \<Rightarrow> abort + byte list" where
  "BCL1_compress cz g part_nr in_offset in2_file =
     (if \<not> part_nr < length (part_startoffset g) then Inl IndexError else
      let base = part_startoffset g ! part_nr + in_offset; f = in_file g in
      if read_at f base 4 \<noteq> BCL1_magic then Inl (Exit 1) else
      case unpack_H_be (read_at f (base + 6) 2) of
        Inl e \<Rightarrow> Inl e
      | Inr Algorithm \<Rightarrow>
      if Algorithm \<noteq> 0x09 \<and> Algorithm \<noteq> 0x0B \<and> Algorithm \<noteq> 0x0C then Inl (Exit 1) else
      case unpack_I_be (read_at f (base + 8) 4) of
        Inl e \<Rightarrow> Inl e
      | Inr unpacked_part_size \<Rightarrow>
      case read_lzma_header f base Algorithm of
        Inl e \<Rightarrow> Inl e
      | Inr (LZMA_Properties, LZMA_DictionarySize) \<Rightarrow>
      case prepare_dataread in2_file of
        Inl e \<Rightarrow> Inl e
      | Inr dataread \<Rightarrow>
      case write_block cz g part_nr Algorithm unpacked_part_size
             LZMA_Properties LZMA_DictionarySize dataread of
        Inl e \<Rightarrow> Inl e
      | Inr out \<Rightarrow>
          if FW_BOOTLOADER g = 0 then
            (case pack_H_le (MemCheck_CalcCheckSum16Bit out 0 (length out - 16 + 16) 0x4) of
               Inl e \<Rightarrow> Inl e
             | Inr crc \<Rightarrow> Inr (write_at out 4 crc))
          else Inr out)"

section \<open>Facts about the encoder\<close>

lemma uint_of_int_byte: "uint (of_int x :: byte) = x mod 256"
  by (simp add: uint_word_of_int)

lemma be32_digits:
  assumes "0 \<le> v" "v < 2 ^ 32"
  shows "(v div 2 ^ 24 mod 256) * 2 ^ 24 + (v div 2 ^ 16 mod 256) * 2 ^ 16 +
         (v div 2 ^ 8 mod 256) * 2 ^ 8 + v mod 256 = (v::int)"
proof -
  define a where "a = v div 256"
  define b where "b = a div 256"
  define c where "c = b div 256"
  have e: "v div 2 ^ 8 = a" "v div 2 ^ 16 = b" "v div 2 ^ 24 = c"
    by (simp_all add: a_def b_def c_def zdiv_zmult2_eq)
  have c: "c mod 256 = c" using assms by (simp add: e[symmetric])
  have "v = 256 * a + v mod 256" "a = 256 * b + a mod 256" "b = 256 * c + b mod 256"
    by (simp_all add: a_def b_def c_def)
  then show ?thesis unfolding e c by simp
qed

lemma unpack_pack_I_be: "pack_I_be v = Inr bs \<Longrightarrow> length bs = 4 \<and> unpack_I_be bs = Inr v"
proof -
  assume a: "pack_I_be v = Inr bs"
  then have r: "0 \<le> v" "v < 2 ^ 32"
    and bs: "bs = [of_int (v div 2 ^ 24), of_int (v div 2 ^ 16), of_int (v div 2 ^ 8), of_int v]"
    by (auto simp: pack_I_be_def split: if_splits)
  have "unpack_I_be bs =
        Inr (uint (of_int (v div 2 ^ 24) :: byte) * 2 ^ 24 + uint (of_int (v div 2 ^ 16) :: byte) * 2 ^ 16 +
             uint (of_int (v div 2 ^ 8) :: byte) * 2 ^ 8 + uint (of_int v :: byte))"
    unfolding bs by (simp only: unpack_I_be.simps)
  also have "\<dots> = Inr v"
    by (simp only: uint_of_int_byte be32_digits[OF r])
  finally show ?thesis by (simp add: bs)
qed

lemma pack_I_be_length: "pack_I_be v = Inr bs \<Longrightarrow> length bs = 4"
  by (auto simp: pack_I_be_def split: if_splits)

lemma pack_H_be_length: "pack_H_be v = Inr bs \<Longrightarrow> length bs = 2"
  by (auto simp: pack_H_be_def split: if_splits)

lemma pack_H_le_length: "pack_H_le v = Inr bs \<Longrightarrow> length bs = 2"
  by (auto simp: pack_H_le_def split: if_splits)

lemma write_at_middle:
  "length a = p \<Longrightarrow> length b' = length b \<Longrightarrow> write_at (a @ b @ rest) p b' = a @ b' @ rest"
  by (simp add: write_at_def)

lemma prepare_dataread_length: "prepare_dataread in2 = Inr d \<Longrightarrow> length d = length in2"
  by (auto simp: prepare_dataread_def Let_def split: option.splits if_splits)

lemma count_bytes_range: "1 \<le> n \<Longrightarrow> n \<le> 5 \<Longrightarrow> 1 \<le> count_bytes y n \<and> count_bytes y n \<le> n"
proof (induction y n rule: count_bytes.induct)
  case (1 y n)
  show ?case
  proof (cases "n \<ge> 2 \<and> y AND 0xfe000000 = 0")
    case True
    then have "count_bytes y n = count_bytes (push_bit 7 y) (n - 1)"
      by (subst count_bytes.simps) simp
    moreover have "1 \<le> count_bytes (push_bit 7 y) (n - 1) \<and> count_bytes (push_bit 7 y) (n - 1) \<le> n - 1"
      using "1.IH" True "1.prems" by simp
    ultimately show ?thesis by simp
  next
    case False
    then have "count_bytes y n = n" by (subst count_bytes.simps) auto
    then show ?thesis using "1.prems" by simp
  qed
qed

lemma varint_num_bytes_range: "1 \<le> varint_num_bytes x" "varint_num_bytes x \<le> 5"
  using count_bytes_range[of 5 "drop_bit 3 x"] by (simp_all add: varint_num_bytes_def)

lemma write_bytes_length: "0 \<le> n \<Longrightarrow> int (length (write_bytes buf n)) = n"
proof (induction buf n rule: write_bytes.induct)
  case (1 buf n)
  show ?case
  proof (cases "n > 0")
    case True
    then have "write_bytes buf n = of_int (drop_bit (nat (8 * (n - 1))) buf AND 0xFF) # write_bytes buf (n - 1)"
      by (subst write_bytes.simps) simp
    then show ?thesis using "1.IH"[OF True] True by simp
  next
    case False
    then show ?thesis using "1.prems" by (subst write_bytes.simps) simp
  qed
qed

lemma write_varint_length: "int (length (write_varint x)) = varint_num_bytes x"
  using varint_num_bytes_range[of x] by (simp add: write_varint_def Let_def write_bytes_length)

lemma token_outpos_length: "token_outpos m t = int (length (token_bytes m t))"
  by (cases t) (simp_all add: write_varint_length)

lemma tokens_outpos_length:
  "sum_list (map (token_outpos m) toks) = int (length (concat (map (token_bytes m) toks)))"
  by (induction toks) (simp_all add: token_outpos_length)

lemma lz77_encode_outpos: "lz77_encode d = Some (payload, outpos) \<Longrightarrow> outpos = int (length payload)"
  by (auto simp: lz77_encode_def Let_def tokens_outpos_length split: option.splits)

lemma payload_of_outpos:
  "payload_of cz alg props dict d = Inr (payload, outpos) \<Longrightarrow> outpos = int (length payload)"
  by (auto simp: payload_of_def Let_def lz77_encode_outpos split: if_splits option.splits sum.splits)

lemma padding_for_range: "0 \<le> padding_for c n" "padding_for c n < 4"
  by (auto simp: padding_for_def) (presburger+)?

lemma write_block_shape:
  assumes "write_block cz g part_nr alg usz props dict d = Inr out"
  shows "\<exists>payload algo usize psize.
           payload_of cz alg props dict d = Inr (payload, int (length payload)) \<and>
           pack_H_be alg = Inr algo \<and>
           pack_I_be (max usz (int (length d))) = Inr usize \<and>
           pack_I_be (int (length payload) + padding_for (pad_condition g part_nr) (int (length payload))) = Inr psize \<and>
           out = BCL1_magic @ [0, 0] @ algo @ usize @ psize @ payload @
                 replicate (nat (padding_for (pad_condition g part_nr) (int (length payload)))) 0"
proof -
  from assms obtain payload outpos where p: "payload_of cz alg props dict d = Inr (payload, outpos)"
    by (auto simp: write_block_def split: if_splits sum.splits)
  then have o: "outpos = int (length payload)" by (rule payload_of_outpos)
  from assms p obtain algo where a: "pack_H_be alg = Inr algo"
    by (auto simp: write_block_def split: if_splits sum.splits)
  have m: "(if usz > int (length d) then usz else int (length d)) = max usz (int (length d))"
    by (simp add: max_def)
  from assms p a obtain usize where u: "pack_I_be (max usz (int (length d))) = Inr usize"
    by (auto simp: write_block_def m split: if_splits sum.splits)
  let ?add = "padding_for (pad_condition g part_nr) (int (length payload))"
  from assms p a u o obtain psize where ps: "pack_I_be (int (length payload) + ?add) = Inr psize"
    by (auto simp: write_block_def m Let_def split: if_splits sum.splits)
  have "out = write_at (BCL1_magic @ [0, 0] @ algo @ usize @ [0, 0, 0, 0] @ payload @ replicate (nat ?add) 0) 12 psize"
    using assms p a u o ps by (auto simp: write_block_def m Let_def split: if_splits sum.splits)
  also have "\<dots> = (BCL1_magic @ [0, 0] @ algo @ usize) @ psize @ (payload @ replicate (nat ?add) 0)"
    using write_at_middle[of "BCL1_magic @ [0, 0] @ algo @ usize" 12 psize "[0, 0, 0, 0]" "payload @ replicate (nat ?add) 0"]
      pack_H_be_length[OF a] pack_I_be_length[OF u] pack_I_be_length[OF ps]
    by (simp add: BCL1_magic_def)
  finally show ?thesis using p o a u ps by simp
qed

lemma BCL1_compress_shape:
  assumes "BCL1_compress cz g part_nr in_offset in2 = Inr out"
  shows "\<exists>alg usz props dict d blk.
           part_nr < length (part_startoffset g) \<and>
           unpack_H_be (read_at (in_file g) (part_startoffset g ! part_nr + in_offset + 6) 2) = Inr alg \<and>
           (alg = 0x09 \<or> alg = 0x0B \<or> alg = 0x0C) \<and>
           unpack_I_be (read_at (in_file g) (part_startoffset g ! part_nr + in_offset + 8) 4) = Inr usz \<and>
           read_lzma_header (in_file g) (part_startoffset g ! part_nr + in_offset) alg = Inr (props, dict) \<and>
           prepare_dataread in2 = Inr d \<and>
           write_block cz g part_nr alg usz props dict d = Inr blk \<and>
           (if FW_BOOTLOADER g = 0 then (\<exists>crc. length crc = 2 \<and> out = write_at blk 4 crc)
            else out = blk)"
  using assms unfolding BCL1_compress_def Let_def
  by (auto split: if_splits sum.splits prod.splits dest: pack_H_le_length)

lemma match_length_bound:
  "match_length d inpos j m l = Some r \<Longrightarrow> l \<le> r \<and> (l < r \<longrightarrow> r \<le> m)"
proof (induction d inpos j m l rule: match_length.induct)
  case (1 d inpos j m l)
  show ?case
  proof (cases "l < m")
    case False
    with "1.prems" show ?thesis by (subst (asm) match_length.simps) simp
  next
    case True
    from "1.prems" True obtain a b where ab: "py_index d (inpos + l) = Some a" "py_index d (j + l) = Some b"
      by (subst (asm) match_length.simps) (auto split: option.splits)
    show ?thesis
    proof (cases "a = b")
      case False
      with "1.prems" True ab show ?thesis by (subst (asm) match_length.simps) simp
    next
      case eq: True
      with "1.prems" True ab have "match_length d inpos j m (l + 1) = Some r"
        by (subst (asm) match_length.simps) simp
      from "1.IH"[OF True ab(1) ab(2) eq this] True show ?thesis by auto
    qed
  qed
qed

definition good_best :: "int \<Rightarrow> int \<Rightarrow> int \<Rightarrow> bool" where
  "good_best bytesleft b off \<longleftrightarrow> (b = 3 \<and> off = 0) \<or> (3 < b \<and> b \<le> off \<and> b \<le> bytesleft)"

lemma find_match_good:
  "find_match d inpos bl j b off = Some r \<Longrightarrow> good_best bl b off \<Longrightarrow> good_best bl (fst r) (snd r)"
proof (induction d inpos bl j b off rule: find_match.induct)
  case (1 d inpos bl j b off)
  show ?case
  proof (cases "j \<noteq> - 1 \<and> inpos - j < LZ_MAX_OFFSET")
    case False
    with "1.prems" show ?thesis by (subst (asm) find_match.simps) auto
  next
    case c1: True
    show ?thesis
    proof (cases "j + b \<ge> int (length d) \<or> inpos + b \<ge> int (length d)")
      case True
      with "1.prems" c1 show ?thesis by (subst (asm) find_match.simps) auto
    next
      case c2: False
      from "1.prems"(1) c1 c2 obtain a c where
        ac: "py_index d (j + b) = Some a" "py_index d (inpos + b) = Some c"
        by (subst (asm) find_match.simps) (auto split: option.splits)
      show ?thesis
      proof (cases "a = c")
        case False
        with "1.prems"(1) c1 c2 ac
        have "find_match d inpos bl (work_chain_get d j) b off = Some r"
          by (subst (asm) find_match.simps) auto
        from "1.IH"(3)[OF c1 c2 ac(1) ac(2) False this "1.prems"(2)] show ?thesis .
      next
        case eq: True
        from "1.prems"(1) c1 c2 ac eq obtain len where
          ml: "match_length d inpos j (if bl < inpos - j then bl else inpos - j) 2 = Some len"
          by (subst (asm) find_match.simps) (auto split: option.splits)
        show ?thesis
        proof (cases "len > b")
          case False
          with "1.prems"(1) c1 c2 ac eq ml
          have "find_match d inpos bl (work_chain_get d j) b off = Some r"
            by (subst (asm) find_match.simps) auto
          from "1.IH"(2)[OF c1 c2 ac(1) ac(2) eq ml False this "1.prems"(2)] show ?thesis .
        next
          case True
          with "1.prems"(1) c1 c2 ac eq ml
          have f: "find_match d inpos bl (work_chain_get d j) len (inpos - j) = Some r"
            by (subst (asm) find_match.simps) auto
          have "3 \<le> b" using "1.prems"(2) by (auto simp: good_best_def)
          with True have "2 < len" by simp
          with match_length_bound[OF ml] have "len \<le> (if bl < inpos - j then bl else inpos - j)" by simp
          then have "good_best bl len (inpos - j)"
            using True \<open>3 \<le> b\<close> by (auto simp: good_best_def split: if_splits)
          from "1.IH"(1)[OF c1 c2 ac(1) ac(2) eq ml True f this] show ?thesis .
        qed
      qed
    qed
  qed
qed

text \<open>How far a token advances \<open>inpos\<close>.\<close>

fun token_span :: "token \<Rightarrow> int" where
  "token_span (Ref len off) = len"
| "token_span (Lit symbol) = 1"

lemma dump_remaining_lits:
  "dump_remaining d inpos = Some toks \<Longrightarrow> t \<in> set toks \<Longrightarrow> \<exists>s. t = Lit s"
proof (induction d inpos arbitrary: toks rule: dump_remaining.induct)
  case (1 d inpos)
  show ?case
  proof (cases "inpos < int (length d)")
    case False
    with "1.prems" show ?thesis by (subst (asm) dump_remaining.simps) simp
  next
    case True
    from "1.prems"(1) True obtain s rest where
      s: "py_index d inpos = Some s" and r: "dump_remaining d (inpos + 1) = Some rest"
      and t: "toks = Lit s # rest"
      by (subst (asm) dump_remaining.simps) (auto split: option.splits)
    from "1.IH"[OF True s r] "1.prems"(2) t show ?thesis by auto
  qed
qed

definition refs_ok :: "int \<Rightarrow> int \<Rightarrow> token list \<Rightarrow> bool" where
  "refs_ok insize inpos toks \<longleftrightarrow>
     (\<forall>i len off. i < length toks \<and> toks ! i = Ref len off \<longrightarrow>
        len \<le> off \<and> inpos + sum_list (map token_span (take i toks)) + len \<le> insize)"

lemma refs_ok_Cons_Lit: "refs_ok n (inpos + 1) rest \<Longrightarrow> refs_ok n inpos (Lit s # rest)"
  unfolding refs_ok_def
proof (intro allI impI)
  fix i len off
  assume h: "\<forall>i len off. i < length rest \<and> rest ! i = Ref len off \<longrightarrow>
        len \<le> off \<and> inpos + 1 + sum_list (map token_span (take i rest)) + len \<le> n"
    and a: "i < length (Lit s # rest) \<and> (Lit s # rest) ! i = Ref len off"
  then obtain k where k: "i = Suc k" by (cases i) auto
  with a have "k < length rest \<and> rest ! k = Ref len off" by simp
  with h have "len \<le> off \<and> inpos + 1 + sum_list (map token_span (take k rest)) + len \<le> n" by blast
  then show "len \<le> off \<and> inpos + sum_list (map token_span (take i (Lit s # rest))) + len \<le> n"
    by (simp add: k)
qed

lemma refs_ok_Cons_Ref:
  assumes "refs_ok n (inpos + l) rest" "l \<le> f" "inpos + l \<le> n"
  shows "refs_ok n inpos (Ref l f # rest)"
  unfolding refs_ok_def
proof (intro allI impI)
  fix i len off
  assume a: "i < length (Ref l f # rest) \<and> (Ref l f # rest) ! i = Ref len off"
  show "len \<le> off \<and> inpos + sum_list (map token_span (take i (Ref l f # rest))) + len \<le> n"
  proof (cases i)
    case 0
    with a assms show ?thesis by simp
  next
    case (Suc k)
    with a have "k < length rest \<and> rest ! k = Ref len off" by simp
    with assms(1) have "len \<le> off \<and> inpos + l + sum_list (map token_span (take k rest)) + len \<le> n"
      unfolding refs_ok_def by blast
    then show ?thesis by (simp add: Suc)
  qed
qed

lemma refs_ok_lits: "(\<And>t. t \<in> set toks \<Longrightarrow> \<exists>s. t = Lit s) \<Longrightarrow> refs_ok n inpos toks"
  unfolding refs_ok_def by (metis nth_mem token.distinct(1))

lemma lz77_loop_refs_ok:
  "lz77_loop d inpos bl = Some toks \<Longrightarrow> inpos + bl = int (length d) \<Longrightarrow>
   refs_ok (int (length d)) inpos toks"
proof (induction d inpos bl arbitrary: toks rule: lz77_loop.induct)
  case (1 d inpos bl)
  show ?case
  proof (cases "bl > 3")
    case False
    with "1.prems"(1) have "dump_remaining d inpos = Some toks"
      by (subst (asm) lz77_loop.simps) simp
    then show ?thesis using dump_remaining_lits refs_ok_lits by blast
  next
    case True
    from "1.prems"(1) True obtain symbols best where
      sy: "symbols_here d inpos = Some symbols" and
      fm: "find_match d inpos bl
             (if work_dict_get d symbols \<noteq> - 1 then work_chain_get d inpos
              else work_dict_get d symbols) 3 0 = Some best"
      by (subst (asm) lz77_loop.simps) (auto split: option.splits)
    have gb: "good_best bl (fst best) (snd best)"
      using find_match_good[OF fm] by (simp add: good_best_def)
    show ?thesis
    proof (cases "worth_emitting (fst best) (snd best)")
      case w: True
      from "1.prems"(1) True sy fm w obtain rest where
        r: "lz77_loop d (inpos + fst best) (bl - fst best) = Some rest"
        and t: "toks = Ref (fst best) (snd best) # rest"
        by (subst (asm) lz77_loop.simps) (auto split: option.splits)
      from w have "3 < fst best" by (auto simp: worth_emitting_def)
      with gb have b: "fst best \<le> snd best" "fst best \<le> bl" by (auto simp: good_best_def)
      have "refs_ok (int (length d)) (inpos + fst best) rest"
        using "1.IH"(1)[OF True sy fm w r] "1.prems"(2) by simp
      then show ?thesis unfolding t using b "1.prems"(2) by (intro refs_ok_Cons_Ref) auto
    next
      case w: False
      from "1.prems"(1) True sy fm w obtain s rest where
        s: "py_index d inpos = Some s" and
        r: "lz77_loop d (inpos + 1) (bl - 1) = Some rest"
        and t: "toks = Lit s # rest"
        by (subst (asm) lz77_loop.simps) (auto split: option.splits)
      have "refs_ok (int (length d)) (inpos + 1) rest"
        using "1.IH"(2)[OF True sy fm w s r] "1.prems"(2) by simp
      then show ?thesis unfolding t by (rule refs_ok_Cons_Lit)
    qed
  qed
qed

lemma unat_eq_of_nat_byte:
  assumes "k < 256"
  shows "(unat (b::byte) = k) = (b = of_nat k)"
proof
  assume "unat b = k"
  then show "b = of_nat k" by auto
next
  assume "b = of_nat k"
  then show "unat b = k" using assms by (simp add: unat_of_nat)
qed

lemma histogram_step_eq: "k < length h \<Longrightarrow> b = of_nat k \<Longrightarrow> k < 256 \<Longrightarrow> (h[unat (b::byte) := h ! unat b + 1]) ! k = h ! k + (if b = of_nat k then 1 else (0::nat))"
proof -
  assume a: "k < length h" "b = of_nat k" "k < 256"
  then have "unat b = k" using unat_eq_of_nat_byte[OF a(3), of b] by blast
  then show ?thesis using a by (simp only: nth_list_update_eq) simp
qed

lemma histogram_step_neq: "k < length h \<Longrightarrow> b \<noteq> of_nat k \<Longrightarrow> k < 256 \<Longrightarrow> (h[unat (b::byte) := h ! unat b + 1]) ! k = h ! k + (if b = of_nat k then 1 else (0::nat))"
proof -
  assume a: "k < length h" "b \<noteq> of_nat k" "k < 256"
  then have "unat b \<noteq> k" using unat_eq_of_nat_byte[OF a(3), of b] by blast
  then show ?thesis using a by (simp only: nth_list_update_neq if_False) simp
qed

lemma histogram_fold_nth:
  "k < length h \<Longrightarrow> k < 256 \<Longrightarrow>
   fold (\<lambda>b h. h[unat b := h ! unat b + 1]) (d :: byte list) h ! k = h ! k + count_list d (of_nat k)"
proof (induction d arbitrary: h)
  case Nil
  then show ?case by simp
next
  case (Cons b d)
  let ?h = "h[unat b := h ! unat b + 1]"
  have l: "k < length ?h" using Cons.prems by simp
  have "fold (\<lambda>b h. h[unat b := h ! unat b + 1]) (b # d) h ! k =
        fold (\<lambda>b h. h[unat b := h ! unat b + 1]) d ?h ! k"
    by (simp only: fold_simps)
  also have "\<dots> = ?h ! k + count_list d (of_nat k)"
    by (rule Cons.IH[OF l Cons.prems(2)])
  also have "?h ! k = h ! k + (if b = of_nat k then 1 else 0)"
    using histogram_step_eq[OF Cons.prems(1) _ Cons.prems(2), of b] histogram_step_neq[OF Cons.prems(1) _ Cons.prems(2), of b] by blast
  also have "h ! k + (if b = of_nat k then 1 else 0) + count_list d (of_nat k) = h ! k + count_list (b # d) (of_nat k)"
    by (simp only: count_list.simps) simp
  finally show ?case .
qed
lemma histogram_fold_length:
  "length (fold (\<lambda>b h. h[unat b := h ! unat b + 1]) d h) = length h"
  by (induction d arbitrary: h) simp_all

lemma histogram_length: "length (histogram d) = 256"
  unfolding histogram_def histogram_fold_length by simp

lemma histogram_nth: "k < 256 \<Longrightarrow> histogram d ! k = count_list d (of_nat k)"
  unfolding histogram_def by (subst histogram_fold_nth) simp_all

lemma choose_marker_zero:
  assumes "0 \<notin> set d"
  shows "choose_marker d = 0"
proof -
  let ?h = "histogram d"
  have h0: "?h ! 0 = 0" using assms histogram_nth[of 0 d] by (simp add: count_list_0_iff)
  obtain x xs where hx: "?h = x # xs"
    using histogram_length[of d] by (cases ?h) auto
  with h0 have x: "x = 0" by simp
  have "Min (set ?h) \<le> 0" by (rule Min_le) (simp_all add: hx x)
  then have "Min (set ?h) = 0" by simp
  then show ?thesis by (simp add: choose_marker_def Let_def hx x)
qed

section \<open>Example inputs\<close>

text \<open>Library codecs are parameters; the LZ77 examples below never call them.\<close>

definition example_codecs :: codecs where
  "example_codecs =
     \<lparr>lzma_compress = (\<lambda>_ _ _ _ _. Inl CodecError), zlib_compress = (\<lambda>d. d),
      lzma_decompress = (\<lambda>_. Inl CodecError), zlib_decompress = (\<lambda>d. Inr d)\<rparr>"

text \<open>
  An HDR firmware as the parser leaves it: partition 0 at offset 0, and a partition with
  id 5 at offset 100 that starts with a BCL1 header (algorithm \<open>0x09\<close>, uncompressed size
  20, packed size 2).
\<close>

definition example_hdr_fw :: globals where
  "example_hdr_fw =
     \<lparr>in_file = replicate 100 0 @
        [0x42, 0x43, 0x4C, 0x31, 0, 0, 0, 9, 0, 0, 0, 20, 0, 0, 0, 2, 0, 0x41],
      FW_HDR = 1, FW_HDR2 = 0, FW_BOOTLOADER = 0, partitions_count = 2,
      part_startoffset = [0, 100], part_size = [100, 18], part_id = [0, 5],
      part_type = [T_unknown, T_BCL1], part_crc = [0, 0], part_crcCalc = [0, 0],
      NVTPACK_FW_HDR2_size = 0, NVTPACK_FW_HDR_AND_PARTITIONS_size = 0,
      total_file_size = 118, orig_file_size = 118, checksum_value = 0\<rparr>"

text \<open>The same bytes seen as an HDR2 firmware.\<close>

definition example_hdr2_fw :: globals where
  "example_hdr2_fw = example_hdr_fw\<lparr>FW_HDR := 0, FW_HDR2 := 1\<rparr>"

text \<open>Nine bytes \<open>0x41\<close>.\<close>

definition nine_A :: "byte list" where
  "nine_A = [0x41, 0x41, 0x41, 0x41, 0x41, 0x41, 0x41, 0x41, 0x41]"

lemma padding_for_nat: "nat (padding_for c (int n)) = (if c then (4 - n mod 4) mod 4 else 0)"
proof (cases c)
  case False
  then show ?thesis by (simp add: padding_for_def)
next
  case True
  define m where "m = n mod 4"
  have m: "m < 4" by (simp add: m_def)
  have i: "int n mod 4 = int m" by (simp add: m_def zmod_int)
  have e1: "padding_for c (int n) = (if int m \<noteq> 0 then 4 - int m else 0)"
    using True by (simp add: padding_for_def i)
  have e2: "nat (if int m \<noteq> 0 then 4 - int m else 0) = (4 - m) mod 4"
    using m by (cases "m = 0") auto
  show ?thesis unfolding e1 e2 using True by (simp add: m_def)
qed

subsection \<open>The encoder on the nine-byte example\<close>

lemma nine_A_tokens:
  "lz77_loop nine_A 0 9 = Some [Lit 0x41, Lit 0x41, Lit 0x41, Lit 0x41, Ref 4 4, Lit 0x41]"
  by (simp add: nine_A_def lz77_loop.simps dump_remaining.simps find_match.simps
      match_length.simps symbols_here_def py_index_def work_dict_get_def work_chain_get_def
      jump_tables_def Let_def upt_conv_Cons symbols_at_def worth_emitting_def LZ_MAX_OFFSET_def)

lemma write_varint_4: "write_varint 4 = [4]" "varint_num_bytes 4 = 1"
  by (simp_all add: write_varint_def varint_num_bytes_def Let_def count_bytes.simps
      pack_groups.simps write_bytes.simps)

lemma nine_A_encoded:
  "lz77_encode nine_A = Some ([0, 0x41, 0x41, 0x41, 0x41, 0, 4, 4, 0x41], 9)"
proof -
  have "choose_marker nine_A = 0"
    by (rule choose_marker_zero) (simp add: nine_A_def)
  moreover have "int (length nine_A) = 9" by (simp add: nine_A_def)
  ultimately show ?thesis
    by (simp add: lz77_encode_def nine_A_tokens write_varint_4)
qed

lemma nine_A_length: "length nine_A = 9"
  by (simp add: nine_A_def)

lemma nine_A_prepared: "prepare_dataread nine_A = Inr nine_A"
  by (simp add: prepare_dataread_def embedded_crc_offset_def nine_A_def)

lemma example_hdr_block:
  "write_block example_codecs example_hdr_fw 1 9 20 0 0 nine_A =
     Inr [0x42, 0x43, 0x4C, 0x31, 0, 0, 0, 9, 0, 0, 0, 20, 0, 0, 0, 9,
          0, 0x41, 0x41, 0x41, 0x41, 0, 4, 4, 0x41]"
  by (simp add: write_block_def payload_of_def nine_A_encoded example_hdr_fw_def
      pack_H_be_def pack_I_be_def padding_for_def pad_condition_def write_at_def BCL1_magic_def
      nine_A_length)

lemma example_hdr2_block:
  "write_block example_codecs example_hdr2_fw 1 9 20 0 0 nine_A =
     Inr [0x42, 0x43, 0x4C, 0x31, 0, 0, 0, 9, 0, 0, 0, 20, 0, 0, 0, 12,
          0, 0x41, 0x41, 0x41, 0x41, 0, 4, 4, 0x41, 0, 0, 0]"
  by (simp add: write_block_def payload_of_def nine_A_encoded example_hdr_fw_def
      example_hdr2_fw_def pack_H_be_def pack_I_be_def padding_for_def pad_condition_def
      write_at_def BCL1_magic_def nine_A_length numeral_3_eq_3)

lemma example_header_fields:
  "read_at (in_file example_hdr_fw) 100 4 = BCL1_magic"
  "unpack_H_be (read_at (in_file example_hdr_fw) 106 2) = Inr 9"
  "unpack_I_be (read_at (in_file example_hdr_fw) 108 4) = Inr 20"
  by (simp_all add: example_hdr_fw_def read_at_def BCL1_magic_def)

lemma example_block_checksums:
  "MemCheck_CalcCheckSum16Bit
     [0x42, 0x43, 0x4C, 0x31, 0, 0, 0, 9, 0, 0, 0, 20, 0, 0, 0, 9,
      0, 0x41, 0x41, 0x41, 0x41, 0, 4, 4, 0x41] 0 25 4 = 0xDEAA"
  "MemCheck_CalcCheckSum16Bit
     [0x42, 0x43, 0x4C, 0x31, 0, 0, 0, 9, 0, 0, 0, 20, 0, 0, 0, 12,
      0, 0x41, 0x41, 0x41, 0x41, 0, 4, 4, 0x41, 0, 0, 0] 0 28 4 = 0xDB50"
  by (simp_all add: MemCheck_CalcCheckSum16Bit_def checksum_closed_form sum_chunks_refines
      read_at_def)

lemma example_hdr_compressed:
  "BCL1_compress example_codecs example_hdr_fw 1 0 nine_A =
     Inr [0x42, 0x43, 0x4C, 0x31, 170, 222, 0, 9, 0, 0, 0, 20, 0, 0, 0, 9,
          0, 0x41, 0x41, 0x41, 0x41, 0, 4, 4, 0x41]"
proof -
  have s: "part_startoffset example_hdr_fw = [0, 100]" "FW_BOOTLOADER example_hdr_fw = 0"
    by (simp_all add: example_hdr_fw_def)
  show ?thesis
    unfolding BCL1_compress_def Let_def
    by (simp add: s example_header_fields read_lzma_header_def nine_A_prepared
        example_hdr_block[unfolded One_nat_def] example_block_checksums pack_H_le_def write_at_def)
qed

lemma example_hdr2_compressed:
  "BCL1_compress example_codecs example_hdr2_fw 1 0 nine_A =
     Inr [0x42, 0x43, 0x4C, 0x31, 80, 219, 0, 9, 0, 0, 0, 20, 0, 0, 0, 12,
          0, 0x41, 0x41, 0x41, 0x41, 0, 4, 4, 0x41, 0, 0, 0]"
proof -
  have s: "part_startoffset example_hdr2_fw = [0, 100]" "FW_BOOTLOADER example_hdr2_fw = 0"
    "in_file example_hdr2_fw = in_file example_hdr_fw"
    by (simp_all add: example_hdr_fw_def example_hdr2_fw_def)
  show ?thesis
    unfolding BCL1_compress_def Let_def
    by (simp add: s example_header_fields read_lzma_header_def nine_A_prepared
        example_hdr2_block[unfolded One_nat_def] example_block_checksums pack_H_le_def write_at_def)
qed

section \<open>Claims about the checksum engine\<close>

text \<open>
  C1.  The claim: for every range and hole offset the engine returns the 16-bit value
  \<open>((~S & 0xFFFF) + 1) & 0xFFFF\<close>, and \<open>0xFFF7\<close> on the bytes \<open>01 00 02 00 03 00\<close>.
  The engine applies no final mask: on the four bytes \<open>FF FF 00 00\<close> (words \<open>0xFFFF\<close> and
  \<open>0\<close>, sum \<open>0xFFFF + 0 + 0 + 1 = 0x10000\<close>) it returns \<open>0x10000\<close>, where the claimed value
  is \<open>0\<close>.  On the example of the specification both agree on \<open>0xFFF7\<close>.
\<close>

theorem C1_checksum_exceeds_16_bits:
  "MemCheck_CalcCheckSum16Bit_Streaming [0xFF, 0xFF, 0x00, 0x00] 0 4 (- 1) = 0x10000 \<and>
   spec_checksum [0xFF, 0xFF, 0x00, 0x00] 0 4 (- 1) = 0 \<and>
   MemCheck_CalcCheckSum16Bit_Streaming [0x01, 0x00, 0x02, 0x00, 0x03, 0x00] 0 6 (- 1) = 0xFFF7 \<and>
   spec_checksum [0x01, 0x00, 0x02, 0x00, 0x03, 0x00] 0 6 (- 1) = 0xFFF7"
proof -
  have "MemCheck_CalcCheckSum16Bit_Streaming [0xFF, 0xFF, 0x00, 0x00] 0 4 (- 1) = 0x10000"
    by (simp add: checksum_closed_form sum_chunks_refines read_at_def)
  moreover have "spec_checksum [0xFF, 0xFF, 0x00, 0x00] 0 4 (- 1) = 0"
    by (simp add: spec_checksum_def spec_sum_list spec_word_def and_mask16 not_mod16 upt_conv_Cons)
  moreover have
    "MemCheck_CalcCheckSum16Bit_Streaming [0x01, 0x00, 0x02, 0x00, 0x03, 0x00] 0 6 (- 1) = 0xFFF7"
    by (simp add: checksum_closed_form sum_chunks_refines read_at_def)
  moreover have "spec_checksum [0x01, 0x00, 0x02, 0x00, 0x03, 0x00] 0 6 (- 1) = 0xFFF7"
    by (simp add: spec_checksum_def spec_sum_list spec_word_def and_mask16 not_mod16 upt_conv_Cons)
  ultimately show ?thesis by blast
qed

text \<open>
  C9.  The value returned by the checksum engine lies in \<open>[1, 0x10000]\<close>: it is
  \<open>((~(S mod 2^16)) & 0xFFFF) + 1\<close> for the accumulated sum \<open>S\<close>, with no final mask, so it
  is never \<open>0\<close>, and it is \<open>0x10000\<close> exactly when \<open>S mod 2^16 = 0\<close>.
\<close>

theorem C9_checksum_range:
  "1 \<le> MemCheck_CalcCheckSum16Bit_Streaming f off len h \<and>
   MemCheck_CalcCheckSum16Bit_Streaming f off len h \<le> 0x10000 \<and>
   (MemCheck_CalcCheckSum16Bit_Streaming f off len h = 0x10000) =
     (sum_chunks f off len h 0 0 mod 2 ^ 16 = 0) \<and>
   MemCheck_CalcCheckSum16Bit_Streaming f off len h =
     ((NOT (sum_chunks f off len h 0 0 mod 2 ^ 16)) AND 0xFFFF) + 1"
proof -
  define m where "m = sum_chunks f off len h 0 0 mod 65536"
  have m: "0 \<le> m" "m < 65536" by (simp_all add: m_def)
  have r: "MemCheck_CalcCheckSum16Bit_Streaming f off len h = 65536 - m"
    by (simp add: checksum_closed_form m_def)
  have p: "(2::int) ^ 16 = 65536" by simp
  have n: "(NOT m) AND 0xFFFF = 65535 - m"
    using m by (simp add: not_and_mask16)
  have "1 \<le> 65536 - m" "65536 - m \<le> 0x10000" "(65536 - m = 0x10000) = (m = 0)"
    "65536 - m = ((NOT m) AND 0xFFFF) + 1"
    using m n by simp_all
  then show ?thesis unfolding r p m_def[symmetric] by blast
qed

section \<open>Claims about \<^verbatim>\<open>BCL1_compress\<close>\<close>

text \<open>
  C8.  When a BCL1 partition is recompressed, the uncompressed-size field of the new block
  (offset 8, big-endian) is the maximum of the field of the block being replaced and the
  length of the new raw data: it grows to the new length and never falls below the old
  value.  This holds for all three algorithms, whenever \<^verbatim>\<open>BCL1_compress\<close> returns.
\<close>

theorem C8_uncompressed_size_is_max:
  assumes "BCL1_compress cz g part_nr in_offset in2_file = Inr out"
  shows "\<exists>unpacked_part_size.
           unpack_I_be (read_at (in_file g) (part_startoffset g ! part_nr + in_offset + 8) 4)
             = Inr unpacked_part_size \<and>
           unpack_I_be (read_at out 8 4) = Inr (max unpacked_part_size (int (length in2_file)))"
proof -
  from BCL1_compress_shape[OF assms] obtain alg usz props dict d blk where
    u: "unpack_I_be (read_at (in_file g) (part_startoffset g ! part_nr + in_offset + 8) 4) = Inr usz"
    and d: "prepare_dataread in2_file = Inr d"
    and b: "write_block cz g part_nr alg usz props dict d = Inr blk"
    and o: "if FW_BOOTLOADER g = 0 then (\<exists>crc. length crc = 2 \<and> out = write_at blk 4 crc)
            else out = blk"
    by blast
  from write_block_shape[OF b] obtain payload algo usize psize where
    us: "pack_I_be (max usz (int (length d))) = Inr usize"
    and al: "pack_H_be alg = Inr algo"
    and blk: "blk = BCL1_magic @ [0, 0] @ algo @ usize @ psize @ payload @
                replicate (nat (padding_for (pad_condition g part_nr) (int (length payload)))) 0"
    by blast
  have l: "length algo = 2" "length usize = 4"
    using pack_H_be_length[OF al] pack_I_be_length[OF us] by simp_all
  let ?rest = "psize @ payload @
      replicate (nat (padding_for (pad_condition g part_nr) (int (length payload)))) 0"
  have "\<exists>c. length c = 2 \<and> out = BCL1_magic @ c @ algo @ usize @ ?rest"
  proof (cases "FW_BOOTLOADER g = 0")
    case True
    with o obtain crc where c: "length crc = 2" "out = write_at blk 4 crc" by auto
    have "write_at (BCL1_magic @ [0, 0] @ (algo @ usize @ ?rest)) 4 crc
          = BCL1_magic @ crc @ (algo @ usize @ ?rest)"
      by (rule write_at_middle) (simp_all add: BCL1_magic_def c)
    with c blk show ?thesis by auto
  next
    case False
    with o blk show ?thesis by (intro exI[of _ "[0, 0]"]) auto
  qed
  then obtain c where "length c = 2" "out = BCL1_magic @ c @ algo @ usize @ ?rest" by blast
  then have "read_at out 8 4 = usize"
    using l by (simp add: read_at_def BCL1_magic_def)
  with unpack_pack_I_be[OF us] u prepare_dataread_length[OF d] show ?thesis by simp
qed

theorem C8_uncompressed_size_is_max_witness:
  "BCL1_compress example_codecs example_hdr_fw 1 0 nine_A =
     Inr [0x42, 0x43, 0x4C, 0x31, 170, 222, 0, 9, 0, 0, 0, 20, 0, 0, 0, 9,
          0, 0x41, 0x41, 0x41, 0x41, 0, 4, 4, 0x41] \<and>
   (\<exists>unpacked_part_size.
      unpack_I_be (read_at (in_file example_hdr_fw) (part_startoffset example_hdr_fw ! 1 + 0 + 8) 4)
        = Inr unpacked_part_size \<and>
      unpack_I_be (read_at [0x42, 0x43, 0x4C, 0x31, 170, 222, 0, 9, 0, 0, 0, 20, 0, 0, 0, 9,
          0, 0x41, 0x41, 0x41, 0x41, 0, 4, 4, 0x41] 8 4)
        = Inr (max unpacked_part_size (int (length nine_A))))"
  by (rule conjI[OF example_hdr_compressed
        C8_uncompressed_size_is_max[OF example_hdr_compressed]])

text \<open>
  C4.  The claim: the encoder pads the payload to a multiple of 4 exactly when the firmware
  is HDR2, or HDR with partition id 0, or a standalone file, "i.e. in every non-bootloader
  context", and the packed-size field (offset 12) is the payload length plus the padding.
  The three listed cases are the test the code makes, but they are not every
  non-bootloader context: an HDR firmware whose partition id is not 0 gets no padding.
  The counterexample compresses nine bytes for partition id 5 of an HDR firmware
  (\<open>FW_BOOTLOADER = 0\<close>): the 9-byte payload is followed by nothing.
\<close>

theorem C4_counterexample:
  "FW_BOOTLOADER example_hdr_fw = 0 \<and> FW_HDR example_hdr_fw = 1 \<and>
   part_id example_hdr_fw ! 1 = 5 \<and>
   BCL1_compress example_codecs example_hdr_fw 1 0 nine_A =
     Inr [0x42, 0x43, 0x4C, 0x31, 170, 222, 0, 9, 0, 0, 0, 20, 0, 0, 0, 9,
          0, 0x41, 0x41, 0x41, 0x41, 0, 4, 4, 0x41] \<and>
   length (drop 16 [0x42, 0x43, 0x4C, 0x31, 170, 222, 0, 9, 0, 0, 0, 20, 0, 0, 0, 9,
          0, 0x41, 0x41, 0x41, 0x41, 0, 4, 4, 0x41 :: byte]) mod 4 = 1"
proof -
  have f: "FW_BOOTLOADER example_hdr_fw = 0" "FW_HDR example_hdr_fw = 1"
    "part_id example_hdr_fw ! 1 = 5"
    by (simp_all add: example_hdr_fw_def)
  have l: "length (drop 16 [0x42, 0x43, 0x4C, 0x31, 170, 222, 0, 9, 0, 0, 0, 20, 0, 0, 0, 9,
          0, 0x41, 0x41, 0x41, 0x41, 0, 4, 4, 0x41 :: byte]) mod 4 = 1"
    by simp
  show ?thesis
    by (intro conjI f example_hdr_compressed l)
qed

text \<open>
  C4, amended.  Whenever \<^verbatim>\<open>BCL1_compress\<close> returns, the bytes after the 16-byte header
  are the algorithm's payload followed by \<open>addsize\<close> zero bytes, where \<open>addsize\<close> brings the
  payload length to a multiple of 4 when the firmware is HDR2, or HDR with partition id 0,
  or neither HDR nor bootloader, and is 0 otherwise (in particular for an HDR partition
  whose id is not 0, and for a bootloader); the packed-size field at offset 12 is the
  payload length plus \<open>addsize\<close>.
\<close>

theorem C4_padding_and_packed_size:
  assumes "BCL1_compress cz g part_nr in_offset in2_file = Inr out"
  shows "\<exists>Algorithm props dict dataread payload addsize.
           unpack_H_be (read_at (in_file g) (part_startoffset g ! part_nr + in_offset + 6) 2)
             = Inr Algorithm \<and>
           read_lzma_header (in_file g) (part_startoffset g ! part_nr + in_offset) Algorithm
             = Inr (props, dict) \<and>
           prepare_dataread in2_file = Inr dataread \<and>
           payload_of cz Algorithm props dict dataread = Inr (payload, int (length payload)) \<and>
           addsize =
             (if FW_HDR2 g = 1 \<or> (FW_HDR g = 1 \<and> part_id g ! part_nr = 0) \<or>
                 (FW_HDR g = 0 \<and> FW_BOOTLOADER g = 0)
              then (4 - length payload mod 4) mod 4 else 0) \<and>
           drop 16 out = payload @ replicate addsize 0 \<and>
           unpack_I_be (read_at out 12 4) = Inr (int (length payload) + int addsize)"
proof -
  from BCL1_compress_shape[OF assms] obtain alg usz props dict d blk where
    a: "unpack_H_be (read_at (in_file g) (part_startoffset g ! part_nr + in_offset + 6) 2) = Inr alg"
    and h: "read_lzma_header (in_file g) (part_startoffset g ! part_nr + in_offset) alg = Inr (props, dict)"
    and d: "prepare_dataread in2_file = Inr d"
    and b: "write_block cz g part_nr alg usz props dict d = Inr blk"
    and o: "if FW_BOOTLOADER g = 0 then (\<exists>crc. length crc = 2 \<and> out = write_at blk 4 crc)
            else out = blk"
    by blast
  define add where "add = padding_for (pad_condition g part_nr)"
  from write_block_shape[OF b] obtain payload algo usize psize where
    p: "payload_of cz alg props dict d = Inr (payload, int (length payload))"
    and al: "pack_H_be alg = Inr algo"
    and us: "pack_I_be (max usz (int (length d))) = Inr usize"
    and ps: "pack_I_be (int (length payload) + add (int (length payload))) = Inr psize"
    and blk: "blk = BCL1_magic @ [0, 0] @ algo @ usize @ psize @ payload @
                replicate (nat (add (int (length payload)))) 0"
    unfolding add_def by blast
  let ?tail = "payload @ replicate (nat (add (int (length payload)))) 0"
  have l: "length algo = 2" "length usize = 4" "length psize = 4"
    using pack_H_be_length[OF al] pack_I_be_length[OF us] pack_I_be_length[OF ps] by simp_all
  have "\<exists>c. length c = 2 \<and> out = BCL1_magic @ c @ algo @ usize @ psize @ ?tail"
  proof (cases "FW_BOOTLOADER g = 0")
    case True
    with o obtain crc where c: "length crc = 2" "out = write_at blk 4 crc" by auto
    have "write_at (BCL1_magic @ [0, 0] @ (algo @ usize @ psize @ ?tail)) 4 crc
          = BCL1_magic @ crc @ (algo @ usize @ psize @ ?tail)"
      by (rule write_at_middle) (simp_all add: BCL1_magic_def c)
    with c blk show ?thesis by auto
  next
    case False
    with o blk show ?thesis by (intro exI[of _ "[0, 0]"]) auto
  qed
  then obtain c where c: "length c = 2" "out = BCL1_magic @ c @ algo @ usize @ psize @ ?tail"
    by blast
  have r: "read_at out 12 4 = psize" "drop 16 out = ?tail"
    using l c by (simp_all add: read_at_def BCL1_magic_def)
  have n: "int (nat (add (int (length payload)))) = add (int (length payload))"
    using padding_for_range(1)[of "pad_condition g part_nr" "int (length payload)"]
    by (simp add: add_def)
  have f: "nat (add (int (length payload))) =
        (if FW_HDR2 g = 1 \<or> (FW_HDR g = 1 \<and> part_id g ! part_nr = 0) \<or>
            (FW_HDR g = 0 \<and> FW_BOOTLOADER g = 0)
         then (4 - length payload mod 4) mod 4 else 0)"
    unfolding add_def pad_condition_def[symmetric] by (rule padding_for_nat)
  show ?thesis
    using a h d p r n f unpack_pack_I_be[OF ps] by (intro exI[of _ alg] exI[of _ props] exI[of _ dict]
        exI[of _ d] exI[of _ payload] exI[of _ "nat (add (int (length payload)))"]) simp
qed

theorem C4_padding_and_packed_size_witness:
  "BCL1_compress example_codecs example_hdr2_fw 1 0 nine_A =
     Inr [0x42, 0x43, 0x4C, 0x31, 80, 219, 0, 9, 0, 0, 0, 20, 0, 0, 0, 12,
          0, 0x41, 0x41, 0x41, 0x41, 0, 4, 4, 0x41, 0, 0, 0] \<and>
   (\<exists>Algorithm props dict dataread payload addsize.
           unpack_H_be (read_at (in_file example_hdr2_fw)
               (part_startoffset example_hdr2_fw ! 1 + 0 + 6) 2) = Inr Algorithm \<and>
           read_lzma_header (in_file example_hdr2_fw) (part_startoffset example_hdr2_fw ! 1 + 0)
               Algorithm = Inr (props, dict) \<and>
           prepare_dataread nine_A = Inr dataread \<and>
           payload_of example_codecs Algorithm props dict dataread
             = Inr (payload, int (length payload)) \<and>
           addsize =
             (if FW_HDR2 example_hdr2_fw = 1 \<or>
                 (FW_HDR example_hdr2_fw = 1 \<and> part_id example_hdr2_fw ! 1 = 0) \<or>
                 (FW_HDR example_hdr2_fw = 0 \<and> FW_BOOTLOADER example_hdr2_fw = 0)
              then (4 - length payload mod 4) mod 4 else 0) \<and>
           drop 16 [0x42, 0x43, 0x4C, 0x31, 80, 219, 0, 9, 0, 0, 0, 20, 0, 0, 0, 12,
                    0, 0x41, 0x41, 0x41, 0x41, 0, 4, 4, 0x41, 0, 0, 0 :: byte]
             = payload @ replicate addsize 0 \<and>
           unpack_I_be (read_at [0x42, 0x43, 0x4C, 0x31, 80, 219, 0, 9, 0, 0, 0, 20, 0, 0, 0, 12,
                    0, 0x41, 0x41, 0x41, 0x41, 0, 4, 4, 0x41, 0, 0, 0] 12 4)
             = Inr (int (length payload) + int addsize))"
  by (rule conjI[OF example_hdr2_compressed
        C4_padding_and_packed_size[OF example_hdr2_compressed]])

text \<open>
  C10.  Every back-reference the LZ77 encoder emits has \<open>length \<le> offset\<close> and ends inside
  the input: if token \<open>i\<close> of the encoder's output is \<open>Ref len off\<close>, then \<open>len \<le> off\<close> and
  \<open>inpos + len \<le> insize\<close>, where \<open>inpos\<close> (the sum of the spans of the tokens before it) is
  the input position at which it was emitted.
\<close>

theorem C10_backreferences_bounded:
  assumes "lz77_loop dataread 0 (int (length dataread)) = Some toks"
    and "i < length toks" and "toks ! i = Ref len off"
  shows "len \<le> off \<and> sum_list (map token_span (take i toks)) + len \<le> int (length dataread)"
  using lz77_loop_refs_ok[OF assms(1)] assms(2,3) unfolding refs_ok_def by force

theorem C10_backreferences_bounded_witness:
  "lz77_loop nine_A 0 (int (length nine_A))
     = Some [Lit 0x41, Lit 0x41, Lit 0x41, Lit 0x41, Ref 4 4, Lit 0x41] \<and>
   4 < length [Lit 0x41, Lit 0x41, Lit 0x41, Lit 0x41, Ref 4 4, Lit 0x41] \<and>
   [Lit 0x41, Lit 0x41, Lit 0x41, Lit 0x41, Ref 4 4, Lit 0x41] ! 4 = Ref 4 4 \<and>
   ((4::int) \<le> 4 \<and>
    sum_list (map token_span (take 4 [Lit 0x41, Lit 0x41, Lit 0x41, Lit 0x41, Ref 4 4, Lit 0x41]))
      + 4 \<le> int (length nine_A))"
proof -
  have e: "lz77_loop nine_A 0 (int (length nine_A))
     = Some [Lit 0x41, Lit 0x41, Lit 0x41, Lit 0x41, Ref 4 4, Lit 0x41]"
    using nine_A_tokens by (simp add: nine_A_def)
  have i: "4 < length [Lit 0x41, Lit 0x41, Lit 0x41, Lit 0x41, Ref 4 4, Lit 0x41]" by simp
  have r: "[Lit 0x41, Lit 0x41, Lit 0x41, Lit 0x41, Ref 4 4, Lit 0x41] ! 4 = Ref 4 4" by simp
  show ?thesis
    by (intro conjI[OF e] conjI[OF i] conjI[OF r] C10_backreferences_bounded[OF e i r])
qed

end
